theory Spec2Isabelle
  imports Main "HOL-Library.Word" "HOL-Library.Multiset"
begin

section \<open>Data model of package grid\<close>

text \<open>
  Go's \<open>int\<close> is taken at its 64-bit width (amd64, arm64) and read in two's
  complement with \<open>sint\<close>; \<open>int32\<close> and \<open>uint32\<close> are 32-bit words.
\<close>

type_synonym goint = "64 word"
type_synonym int32 = "32 word"
type_synonym uint32 = "32 word"

text \<open>
  An \<open>Event\<close> is an interface in the source; the coordinator only ever calls
  \<open>Topic()\<close> on it, the key and the message travel along untouched.
\<close>

record Event =
  Topic :: string
  Key :: string
  Message :: string

text \<open>
  The errors built with \<open>fmt.Errorf\<close> in \<open>Add\<close>, one constructor per format string,
  and the error a failed \<open>NewKafkaReadWriteLog\<close> hands back.
\<close>

datatype error =
    AlreadyAdded string
  | NoDecoder string
  | PartitionsFailed string string
  | TooManyPartitions string string nat
  | LogFailed string

text \<open>
  \<open>ReadWriteLog\<close> is the interface to the replicated log. Its implementation is an
  external collaborator; the record keeps what the coordinator observes of it:
  the topics with a decoder and with an encoder (the key sets of \<open>DecodedTopics()\<close> and
  \<open>EncodedTopics()\<close>), the answer of \<open>Partitions(topic)\<close> (an error text or the
  partition ids), the finite stream \<open>Read(topic, parts)\<close> delivers, and the
  read-process-write loops wired so far.
\<close>

datatype machine = VoterMachine nat | ManagerMachine nat

record loop =
  reads_from :: string
  read_parts :: "int32 list"
  runs :: machine
  writes_to :: string

record ReadWriteLog =
  DecodedTopics :: "string set"
  EncodedTopics :: "string set"
  Partitions :: "string \<Rightarrow> string + int32 list"
  Read :: "string \<Rightarrow> int32 list \<Rightarrow> Event list"
  loops :: "loop list"

text \<open>\<open>type op struct { n int; f func(in <-chan Event) <-chan Event; inputs map[string]bool }\<close>\<close>

record op =
  op_n :: goint
  op_f :: "Event list \<Rightarrow> Event list"
  inputs :: "string \<rightharpoonup> bool"

text \<open>
  A metrics registry is a reference: either the package-wide default registry of
  go-metrics or one the user handed to \<open>UseMetrics\<close>. A nil \<open>g.registry\<close> is \<open>None\<close>.
\<close>

datatype registry = DefaultRegistry | UserRegistry nat

text \<open>
  The \<open>Grid\<close> struct. \<open>wg\<close> is the counter of the wait group, \<open>exit_closed\<close> says
  whether the \<open>exit\<close> channel has been closed.
\<close>

record Grid =
  log :: ReadWriteLog
  gridname :: string
  cmdtopic :: string
  npeers :: goint
  quorum :: uint32
  parts :: "string \<rightharpoonup> int32 list"
  ops :: "string \<rightharpoonup> op"
  wg :: int
  exit_closed :: bool
  registry :: "registry option"
  maxleadertime :: "64 word"

section \<open>Construction\<close>

text \<open>Go's \<open>/\<close> on \<open>int\<close> truncates towards zero.\<close>

definition int_quot :: "goint \<Rightarrow> goint \<Rightarrow> goint" where
  "int_quot a b = word_of_int (sgn (sint a) * sgn (sint b) * (\<bar>sint a\<bar> div \<bar>sint b\<bar>))"

text \<open>\<open>AddDecoder\<close> and \<open>AddEncoder\<close> pass through to the log, which registers the topics.\<close>

definition AddDecoder :: "string list \<Rightarrow> Grid \<Rightarrow> Grid" where
  "AddDecoder topics g = g\<lparr>log := (log g)\<lparr>DecodedTopics := DecodedTopics (log g) \<union> set topics\<rparr>\<rparr>"

definition AddEncoder :: "string list \<Rightarrow> Grid \<Rightarrow> Grid" where
  "AddEncoder topics g = g\<lparr>log := (log g)\<lparr>EncodedTopics := EncodedTopics (log g) \<union> set topics\<rparr>\<rparr>"

definition UseMetrics :: "registry \<Rightarrow> Grid \<Rightarrow> Grid" where
  "UseMetrics r g = g\<lparr>registry := Some r\<rparr>"

text \<open>
  \<open>NewWithKafkaConfig\<close>. \<open>NewKafkaReadWriteLog\<close> is not part of the sources at hand, so
  its result for the configured command topic and base name is the parameter \<open>newlog\<close>.
  \<open>uint32(...)\<close> keeps the low 32 bits.
\<close>

definition NewWithKafkaConfig ::
    "(string \<Rightarrow> string \<Rightarrow> string + ReadWriteLog) \<Rightarrow> string \<Rightarrow> goint \<Rightarrow> error + Grid" where
  "NewWithKafkaConfig newlog name peers =
     (let cmd = name @ ''-cmd'' in
      case newlog cmd name of
        Inl err \<Rightarrow> Inl (LogFailed err)
      | Inr rwlog \<Rightarrow>
          Inr (AddEncoder [cmd] (AddDecoder [cmd]
            \<lparr>log = rwlog, gridname = name, cmdtopic = cmd, npeers = peers,
             quorum = ucast (int_quot peers 2 + 1),
             parts = Map.empty, ops = Map.empty,
             wg = 1, exit_closed = False, registry = None, maxleadertime = 0\<rparr>)))"

section \<open>Registering operators\<close>

text \<open>
  The loop of \<open>Add\<close> over \<open>topics\<close>. It threads the input set of the operator under
  construction and the partition table of the grid, and stops at the first failing
  check. The partition table is written before the parallelism check, as in the source.
\<close>

fun Add_topics ::
    "ReadWriteLog \<Rightarrow> string \<Rightarrow> goint \<Rightarrow> string list \<Rightarrow> (string \<rightharpoonup> bool) \<Rightarrow>
     (string \<rightharpoonup> int32 list) \<Rightarrow> error option \<times> (string \<rightharpoonup> bool) \<times> (string \<rightharpoonup> int32 list)" where
  "Add_topics lg fname k [] ins pt = (None, ins, pt)"
| "Add_topics lg fname k (topic # topics) ins pt =
     (if topic \<notin> DecodedTopics lg then (Some (NoDecoder topic), ins, pt)
      else
        (case Partitions lg topic of
           Inl err \<Rightarrow> (Some (PartitionsFailed topic err), ins(topic \<mapsto> True), pt)
         | Inr ps \<Rightarrow>
             if int (length ps) > sint k
             then (Some (TooManyPartitions topic fname (length ps)), ins(topic \<mapsto> True), pt(topic \<mapsto> ps))
             else Add_topics lg fname k topics (ins(topic \<mapsto> True)) (pt(topic \<mapsto> ps))))"

definition Add ::
    "string \<Rightarrow> goint \<Rightarrow> (Event list \<Rightarrow> Event list) \<Rightarrow> string list \<Rightarrow> Grid \<Rightarrow> error option \<times> Grid" where
  "Add fname k fn topics g =
     (if ops g fname \<noteq> None then (Some (AlreadyAdded fname), g)
      else
        (case Add_topics (log g) fname k topics Map.empty (parts g) of
           (Some e, ins, pt) \<Rightarrow> (Some e, g\<lparr>parts := pt\<rparr>)
         | (None, ins, pt) \<Rightarrow>
             (None, g\<lparr>parts := pt, ops := (ops g)(fname \<mapsto> \<lparr>op_n = k, op_f = fn, inputs = ins\<rparr>)\<rparr>)))"

section \<open>Starting an instance\<close>

text \<open>
  An \<open>Instance\<close> is a partition assignment. \<open>TopicSlices\<close> is a Go map; the list gives
  its entries in the order the \<open>range\<close> loop happens to visit them.
\<close>

record Instance =
  Fname :: string
  InstanceId :: goint
  TopicSlices :: "(string \<times> int32 list) list"

text \<open>\<open>log.Fatalf\<close> ends the process; one constructor per call in \<open>startinst\<close>.\<close>

datatype fatal =
    DoesNotExist string
  | NotReaderOf string string
  | NotWriterOf string string

text \<open>The reader set-up loop: a lookup of a missing key in \<open>inputs\<close> reads as false.\<close>

fun startinst_readers ::
    "ReadWriteLog \<Rightarrow> string \<Rightarrow> op \<Rightarrow> (string \<times> int32 list) list \<Rightarrow> Event list list \<Rightarrow>
     fatal + Event list list" where
  "startinst_readers lg fname oper [] ins = Inr ins"
| "startinst_readers lg fname oper ((topic, ps) # rest) ins =
     (if inputs oper topic \<noteq> Some True then Inl (NotReaderOf fname topic)
      else startinst_readers lg fname oper rest (ins @ [Read lg topic ps]))"

text \<open>
  The first part of \<open>startinst\<close>, up to the point where all readers are opened: either
  the process has been ended, or the input streams of the instance are at hand.
\<close>

definition startinst_ins :: "Grid \<Rightarrow> Instance \<Rightarrow> fatal + Event list list" where
  "startinst_ins g inst =
     (case ops g (Fname inst) of
        None \<Rightarrow> Inl (DoesNotExist (Fname inst))
      | Some oper \<Rightarrow> startinst_readers (log g) (Fname inst) oper (TopicSlices inst) [])"

section \<open>Merging the input streams\<close>

text \<open>
  Meters live in a registry under a name and count what they are marked with. The
  go-metrics call \<open>GetOrRegisterMeter(name, r)\<close> takes the default registry for a nil
  \<open>r\<close>, returns the meter already registered under the name, and registers a new one,
  at zero, only when there is none.
\<close>

type_synonym meters = "registry \<Rightarrow> string \<rightharpoonup> nat"
type_synonym meter = "registry \<times> string"

definition Count :: "meter \<Rightarrow> meters \<Rightarrow> nat" where
  "Count h ms = (case ms (fst h) (snd h) of None \<Rightarrow> 0 | Some c \<Rightarrow> c)"

definition MeterMark :: "meter \<Rightarrow> nat \<Rightarrow> meters \<Rightarrow> meters" where
  "MeterMark h k ms = ms(fst h := (ms (fst h))(snd h \<mapsto> Count h ms + k))"

definition GetOrRegisterMeter :: "string \<Rightarrow> registry option \<Rightarrow> meters \<Rightarrow> meter \<times> meters" where
  "GetOrRegisterMeter name r ms =
     (let reg = (case r of None \<Rightarrow> DefaultRegistry | Some x \<Rightarrow> x) in
      case ms reg name of
        Some c \<Rightarrow> ((reg, name), ms)
      | None \<Rightarrow> ((reg, name), ms(reg := (ms reg)(name \<mapsto> 0))))"

text \<open>
  \<open>merge\<close> starts one goroutine per input channel and returns at once; what happens
  afterwards is an interleaving of the goroutines' steps. A goroutine of \<open>merge\<close> is
  at one of three places of its loop body: waiting to receive from its input, holding
  a message it is about to send on \<open>merged\<close>, or about to call \<open>meter.Mark(1)\<close>.
  A lane pairs what is still to come on an input channel (the channel is closed after
  it) with the place of the goroutine reading it.
\<close>

datatype worker = Receiving | Sending Event | Marking

record merge_state =
  lanes :: "(Event list \<times> worker) list"
  merged :: "Event list"
  delivered :: "Event list"
  rate :: meter
  metrics :: meters

text \<open>
  The state \<open>merge\<close> leaves behind when it returns: the meter looked up or registered,
  the channel \<open>merged\<close> with its 1024 free slots, one goroutine per input. \<open>delivered\<close>
  collects what the consumer of \<open>merged\<close> (the operator function) has received.
\<close>

definition merge :: "Grid \<Rightarrow> string \<Rightarrow> Event list list \<Rightarrow> meters \<Rightarrow> merge_state" where
  "merge g fname ins ms =
     (case GetOrRegisterMeter (fname @ ''-msg-rate'') (registry g) ms of
        (h, ms') \<Rightarrow>
          \<lparr>lanes = map (\<lambda>c. (c, Receiving)) ins, merged = [], delivered = [],
           rate = h, metrics = ms'\<rparr>)"

text \<open>
  The steps: goroutine \<open>i\<close> receives the next message of its input; it sends the message
  it holds on \<open>merged\<close>, which blocks while the buffer holds 1024 messages; it marks
  the meter; the consumer takes the oldest message out of \<open>merged\<close>. A step that cannot
  be taken in a state yields \<open>None\<close>.

  The meters are shared with the rest of the process: \<open>startinst\<close> calls \<open>merge\<close> once
  per instance, and the instances of one operator get the same meter. \<open>Outside h\<close> is a
  step of such another holder, a goroutine of another \<open>merge\<close> for one, calling \<open>Mark(1)\<close>
  on the meter \<open>h\<close>; it can be taken at any time.
\<close>

datatype merge_action = Recv nat | Send nat | Mark nat | Deliver | Outside meter

fun merge_step :: "merge_action \<Rightarrow> merge_state \<Rightarrow> merge_state option" where
  "merge_step (Recv i) s =
     (if i < length (lanes s) then
        (case lanes s ! i of
           (m # rest, Receiving) \<Rightarrow> Some (s\<lparr>lanes := (lanes s)[i := (rest, Sending m)]\<rparr>)
         | _ \<Rightarrow> None)
      else None)"
| "merge_step (Send i) s =
     (if i < length (lanes s) then
        (case lanes s ! i of
           (c, Sending m) \<Rightarrow>
             if length (merged s) < 1024
             then Some (s\<lparr>lanes := (lanes s)[i := (c, Marking)], merged := merged s @ [m]\<rparr>)
             else None
         | _ \<Rightarrow> None)
      else None)"
| "merge_step (Mark i) s =
     (if i < length (lanes s) then
        (case lanes s ! i of
           (c, Marking) \<Rightarrow>
             Some (s\<lparr>lanes := (lanes s)[i := (c, Receiving)],
                     metrics := MeterMark (rate s) 1 (metrics s)\<rparr>)
         | _ \<Rightarrow> None)
      else None)"
| "merge_step Deliver s =
     (case merged s of
        [] \<Rightarrow> None
      | m # rest \<Rightarrow> Some (s\<lparr>merged := rest, delivered := delivered s @ [m]\<rparr>))"
| "merge_step (Outside h) s = Some (s\<lparr>metrics := MeterMark h 1 (metrics s)\<rparr>)"

text \<open>A schedule is a list of steps; it runs only if each step can be taken in turn.\<close>

fun merge_run :: "merge_action list \<Rightarrow> merge_state \<Rightarrow> merge_state option" where
  "merge_run [] s = Some s"
| "merge_run (a # as) s = (case merge_step a s of None \<Rightarrow> None | Some s' \<Rightarrow> merge_run as s')"

text \<open>
  A state is quiescent when no step of this merge and of its consumer can be taken:
  nothing is left to do for them.
\<close>

definition merge_actions :: "merge_state \<Rightarrow> merge_action list" where
  "merge_actions s = Deliver # concat (map (\<lambda>i. [Recv i, Send i, Mark i]) [0..<length (lanes s)])"

definition merge_quiescent :: "merge_state \<Rightarrow> bool" where
  "merge_quiescent s = list_all (\<lambda>a. merge_step a s = None) (merge_actions s)"

text \<open>
  The marks a schedule contains: those this merge makes, and those others make on a
  given meter.
\<close>

fun own_marks :: "merge_action list \<Rightarrow> nat" where
  "own_marks [] = 0"
| "own_marks (Mark i # as) = Suc (own_marks as)"
| "own_marks (a # as) = own_marks as"

fun outside_marks :: "meter \<Rightarrow> merge_action list \<Rightarrow> nat" where
  "outside_marks h [] = 0"
| "outside_marks h (Outside h' # as) = (if h' = h then 1 else 0) + outside_marks h as"
| "outside_marks h (a # as) = outside_marks h as"

text \<open>
  Bookkeeping for the proofs: the messages a lane still holds (on the input channel or
  in the goroutine's hand), the marks a lane still owes the meter, and the number of
  steps a lane has left. \<open>meter_count\<close> reads the count of the operator's meter.
\<close>

fun lane_events :: "Event list \<times> worker \<Rightarrow> Event multiset" where
  "lane_events (c, Sending m) = mset c + {#m#}"
| "lane_events (c, w) = mset c"

fun lane_owed :: "Event list \<times> worker \<Rightarrow> nat" where
  "lane_owed (c, Marking) = 1"
| "lane_owed (c, w) = 0"

fun lane_weight :: "Event list \<times> worker \<Rightarrow> nat" where
  "lane_weight (c, Receiving) = 4 * length c"
| "lane_weight (c, Sending m) = 4 * length c + 3"
| "lane_weight (c, Marking) = 4 * length c + 1"

definition merge_events :: "merge_state \<Rightarrow> Event multiset" where
  "merge_events s = sum_list (map lane_events (lanes s)) + mset (merged s) + mset (delivered s)"

definition merge_owed :: "merge_state \<Rightarrow> nat" where
  "merge_owed s = sum_list (map lane_owed (lanes s))"

definition merge_weight :: "merge_state \<Rightarrow> nat" where
  "merge_weight s = sum_list (map lane_weight (lanes s)) + length (merged s)"

definition meter_count :: "merge_state \<Rightarrow> nat" where
  "meter_count s = Count (rate s) (metrics s)"

section \<open>Demultiplexing the operator's output\<close>

text \<open>
  The second half of \<open>startinst\<close>. The \<open>for\<close> loop over \<open>EncodedTopics()\<close> creates the
  channel of a topic, hands it to the log writer and, still inside the loop body,
  starts a goroutine that ranges over \<open>out\<close>: there is one such goroutine per encoded
  topic, all of them receiving from the same channel \<open>out\<close> and sharing the map
  \<open>outs\<close>. A goroutine either waits to receive (\<open>None\<close>) or holds the event it is about
  to route. \<open>todo\<close> lists the topics the loop has yet to visit, \<open>outs\<close> holds the buffer
  of each channel created so far, \<open>written\<close> what the log writer has taken out of each
  channel, \<open>out\<close> what the operator produced and nobody received yet, \<open>halted\<close> the
  \<open>log.Fatalf\<close> that ended the process.
\<close>

record demux_state =
  todo :: "string list"
  outs :: "string \<rightharpoonup> Event list"
  written :: "string \<Rightarrow> Event list"
  out :: "Event list"
  routers :: "Event option list"
  halted :: "fatal option"

definition startinst_demux :: "string \<Rightarrow> string list \<Rightarrow> Event list \<Rightarrow> demux_state" where
  "startinst_demux fname encoded produced =
     \<lparr>todo = encoded, outs = Map.empty, written = (\<lambda>_. []), out = produced,
      routers = [], halted = None\<rparr>"

text \<open>
  The steps: one iteration of the \<open>for\<close> loop; goroutine \<open>i\<close> receives the next event
  from \<open>out\<close>; goroutine \<open>i\<close> looks the topic of its event up in \<open>outs\<close> and sends the
  event there (blocking on a full buffer of 1024) or ends the process; the log writer
  takes the oldest event out of a topic's channel. Nothing happens after \<open>log.Fatalf\<close>.
  Each access to the map \<open>outs\<close> is one step; the abort the Go runtime may raise when a
  goroutine's lookup coincides with a write of the loop is not among the steps.
\<close>

datatype demux_action = Setup | Take nat | Route nat | Drain string

fun demux_step :: "string \<Rightarrow> demux_action \<Rightarrow> demux_state \<Rightarrow> demux_state option" where
  "demux_step fname Setup s =
     (if halted s \<noteq> None then None
      else
        (case todo s of
           [] \<Rightarrow> None
         | topic # rest \<Rightarrow>
             Some (s\<lparr>todo := rest, outs := (outs s)(topic \<mapsto> []), routers := routers s @ [None]\<rparr>)))"
| "demux_step fname (Take i) s =
     (if halted s \<noteq> None \<or> \<not> i < length (routers s) then None
      else
        (case (routers s ! i, out s) of
           (None, event # rest) \<Rightarrow> Some (s\<lparr>out := rest, routers := (routers s)[i := Some event]\<rparr>)
         | _ \<Rightarrow> None))"
| "demux_step fname (Route i) s =
     (if halted s \<noteq> None \<or> \<not> i < length (routers s) then None
      else
        (case routers s ! i of
           None \<Rightarrow> None
         | Some event \<Rightarrow>
             (case outs s (Topic event) of
                Some topicout \<Rightarrow>
                  if length topicout < 1024
                  then Some (s\<lparr>outs := (outs s)(Topic event \<mapsto> topicout @ [event]),
                               routers := (routers s)[i := None]\<rparr>)
                  else None
              | None \<Rightarrow> Some (s\<lparr>halted := Some (NotWriterOf fname (Topic event))\<rparr>))))"
| "demux_step fname (Drain topic) s =
     (if halted s \<noteq> None then None
      else
        (case outs s topic of
           Some (event # rest) \<Rightarrow>
             Some (s\<lparr>outs := (outs s)(topic \<mapsto> rest),
                     written := (written s)(topic := written s topic @ [event])\<rparr>)
         | _ \<Rightarrow> None))"

fun demux_run :: "string \<Rightarrow> demux_action list \<Rightarrow> demux_state \<Rightarrow> demux_state option" where
  "demux_run fname [] s = Some s"
| "demux_run fname (a # as) s =
     (case demux_step fname a s of None \<Rightarrow> None | Some s' \<Rightarrow> demux_run fname as s')"

text \<open>Everything sent on the channel of a topic so far, in the order it was sent.\<close>

definition sent_on :: "demux_state \<Rightarrow> string \<Rightarrow> Event list" where
  "sent_on s topic = written s topic @ (case outs s topic of None \<Rightarrow> [] | Some buf \<Rightarrow> buf)"

text \<open>What a schedule of the demultiplexing has put on the channel of a topic.\<close>

definition demux_sent ::
    "string \<Rightarrow> demux_action list \<Rightarrow> demux_state \<Rightarrow> string \<Rightarrow> Event list option" where
  "demux_sent fname sched s topic = map_option (\<lambda>s'. sent_on s' topic) (demux_run fname sched s)"

section \<open>Process control\<close>

text \<open>
  \<open>Start\<close>. The voter and the manager are built for peer 0 and each is put between a
  reader of partition 0 of the command topic and a writer to the command topic; the
  log records each such loop. The function has one \<open>return\<close>.
\<close>

definition wire :: "machine \<Rightarrow> int32 list \<Rightarrow> Grid \<Rightarrow> Grid" where
  "wire m cmdpart g =
     g\<lparr>log := (log g)\<lparr>loops := loops (log g) @
        [\<lparr>reads_from = cmdtopic g, read_parts = cmdpart, runs = m, writes_to = cmdtopic g\<rparr>]\<rparr>\<rparr>"

definition Start :: "Grid \<Rightarrow> error option \<times> Grid" where
  "Start g =
     (let g1 = (if registry g = None then g\<lparr>registry := Some DefaultRegistry\<rparr> else g);
          cmdpart = [0];
          g2 = wire (VoterMachine 0) cmdpart g1;
          g3 = wire (ManagerMachine 0) cmdpart g2
      in (None, g3))"

text \<open>Calling \<open>Start\<close> \<open>k\<close> times in a row: the values returned and the grid at the end.\<close>

fun Start_times :: "nat \<Rightarrow> Grid \<Rightarrow> error option list \<times> Grid" where
  "Start_times 0 g = ([], g)"
| "Start_times (Suc k) g =
     (case Start g of (r, g') \<Rightarrow> (case Start_times k g' of (rs, g'') \<Rightarrow> (r # rs, g'')))"

text \<open>
  \<open>Stop\<close> is \<open>close(g.exit); g.wg.Done()\<close>. Closing a closed channel panics, and the
  statement after it is not reached; \<open>Done\<close> panics when it takes the counter below zero.
  \<open>Wait\<close> returns when the counter is zero and blocks otherwise.
\<close>

datatype panic = CloseOfClosedChannel | NegativeWaitGroupCounter

definition Stop :: "Grid \<Rightarrow> panic option \<times> Grid" where
  "Stop g =
     (if exit_closed g then (Some CloseOfClosedChannel, g)
      else
        (let g1 = g\<lparr>exit_closed := True\<rparr>;
             g2 = g1\<lparr>wg := wg g1 - 1\<rparr>
         in if wg g2 < 0 then (Some NegativeWaitGroupCounter, g2) else (None, g2)))"

definition Wait_returns :: "Grid \<Rightarrow> bool" where
  "Wait_returns g = (wg g = 0)"

section \<open>Actor definitions\<close>

text \<open>\<open>type ActorDef struct { id, Type, Name, namespace string }\<close>\<close>

record ActorDef =
  id_cache :: string
  Type :: string
  Name :: string
  namespace :: string

definition NewActorDef :: "string \<Rightarrow> ActorDef" where
  "NewActorDef name = \<lparr>id_cache = [], Type = name, Name = name, namespace = []\<rparr>"

text \<open>\<open>ID\<close> has a pointer receiver: it returns the id and the updated struct.\<close>

definition ID :: "ActorDef \<Rightarrow> string \<times> ActorDef" where
  "ID a =
     (let a' = (if id_cache a = [] then a\<lparr>id_cache := namespace a @ ''-'' @ Name a\<rparr> else a)
      in (id_cache a', a'))"

text \<open>
  A caller that writes the exported and unexported name fields between calls of \<open>ID\<close>:
  each entry of the list is a new \<open>(Name, namespace)\<close> stored before the next call.
  The result lists the ids the calls returned.
\<close>

fun ID_after_writes :: "(string \<times> string) list \<Rightarrow> ActorDef \<Rightarrow> string list" where
  "ID_after_writes [] a = []"
| "ID_after_writes ((nm, ns) # ws) a =
     (case ID (a\<lparr>Name := nm, namespace := ns\<rparr>) of (r, a') \<Rightarrow> r # ID_after_writes ws a')"

datatype actor_error = ErrInvalidActorType | ErrInvalidActorName | ErrInvalidActorNamespace

text \<open>
  \<open>ValidateActorDef\<close>. The helper \<open>isNameValid\<close> it calls is not part of the sources at
  hand, so the name grammar is the parameter \<open>valid\<close>.
\<close>

definition ValidateActorDef :: "(string \<Rightarrow> bool) \<Rightarrow> ActorDef \<Rightarrow> actor_error option" where
  "ValidateActorDef valid def =
     (if \<not> valid (Type def) then Some ErrInvalidActorType
      else if \<not> valid (Name def) then Some ErrInvalidActorName
      else if \<not> valid (namespace def) then Some ErrInvalidActorNamespace
      else None)"

text \<open>
  Modelled from the spec: \<open>isNameValid\<close> is missing from the sources; the spec gives the
  name grammar as "no whitespace, non-empty".
\<close>

definition whitespace :: "char list" where
  "whitespace = [CHR '' '', CHR 0x09, CHR 0x0A, CHR 0x0B, CHR 0x0C, CHR 0x0D]"

definition isNameValid :: "string \<Rightarrow> bool" where
  "isNameValid name = (name \<noteq> [] \<and> list_all (\<lambda>c. c \<notin> set whitespace) name)"

section \<open>Sample values\<close>

text \<open>
  A log that knows the topic \<open>topicA\<close> with the given partitions and fails partition
  discovery for every other topic, and the grid named \<open>g\<close> of three peers over it, as
  \<open>NewWithKafkaConfig\<close> followed by \<open>AddDecoder\<close> for \<open>topicA\<close> leaves it.
\<close>

definition topicA_log :: "int32 list \<Rightarrow> ReadWriteLog" where
  "topicA_log ps =
     \<lparr>DecodedTopics = {}, EncodedTopics = {},
      Partitions = (\<lambda>t. if t = ''topicA'' then Inr ps else Inl ''unknown topic''),
      Read = (\<lambda>t qs. []), loops = []\<rparr>"

definition topicA_grid :: "int32 list \<Rightarrow> Grid" where
  "topicA_grid ps =
     \<lparr>log = (topicA_log ps)\<lparr>DecodedTopics := {''g-cmd'', ''topicA''}, EncodedTopics := {''g-cmd''}\<rparr>,
      gridname = ''g'', cmdtopic = ''g-cmd'', npeers = 3, quorum = 2,
      parts = Map.empty, ops = Map.empty,
      wg = 1, exit_closed = False, registry = None, maxleadertime = 0\<rparr>"

definition sample_newlog :: "string \<Rightarrow> string \<Rightarrow> string + ReadWriteLog" where
  "sample_newlog cmd base = Inr (topicA_log [0, 1])"

definition mk_event :: "string \<Rightarrow> string \<Rightarrow> Event" where
  "mk_event topic key = \<lparr>Topic = topic, Key = key, Message = []\<rparr>"

definition no_meters :: meters where
  "no_meters = (\<lambda>r. Map.empty)"

text \<open>
  The meters an earlier instance of operator \<open>x\<close> on the same grid leaves behind after
  merging a single input stream of one event.
\<close>

definition one_event_schedule :: "merge_action list" where
  "one_event_schedule = [Recv 0, Send 0, Mark 0, Deliver]"

definition meters_after_first :: meters where
  "meters_after_first =
     (case merge_run one_event_schedule
             (merge (topicA_grid [0, 1]) ''x'' [[mk_event ''topicA'' ''k1'']] no_meters) of
        Some s \<Rightarrow> metrics s
      | None \<Rightarrow> no_meters)"

section \<open>Registration: what \<open>Add\<close> checks and what it leaves behind\<close>

lemma Add_topics_fails_iff:
  "fst (Add_topics lg fname k topics ins pt) \<noteq> None \<longleftrightarrow>
     (\<exists>t \<in> set topics. t \<notin> DecodedTopics lg \<or> (\<exists>e. Partitions lg t = Inl e) \<or>
        (\<exists>ps. Partitions lg t = Inr ps \<and> int (length ps) > sint k))"
  by (induction topics arbitrary: ins pt) (auto split: sum.splits)



lemma Add_topics_error_indep:
  "fst (Add_topics lg fname k topics ins pt) = fst (Add_topics lg fname k topics ins' pt')"
  by (induction topics arbitrary: ins pt ins' pt') (simp_all split: sum.splits)

lemma Add_topics_parts_frame:
  "Add_topics lg fname k topics ins pt = (r, ins', pt') \<Longrightarrow> t \<notin> set topics \<Longrightarrow> pt' t = pt t"
  by (induction topics arbitrary: ins pt) (auto split: if_splits sum.splits)

lemma Add_topics_ok:
  "Add_topics lg fname k topics ins pt = (None, ins', pt') \<Longrightarrow>
     ins' = (\<lambda>t. if t \<in> set topics then Some True else ins t) \<and>
     pt' = (\<lambda>t. if t \<in> set topics then (case Partitions lg t of Inr ps \<Rightarrow> Some ps | Inl e \<Rightarrow> None) else pt t)"
proof (induction topics arbitrary: ins pt)
  case Nil
  then show ?case by simp
next
  case (Cons topic topics)
  from Cons.prems obtain ps where d: "topic \<in> DecodedTopics lg" and p: "Partitions lg topic = Inr ps"
    and le: "\<not> int (length ps) > sint k"
    and rec: "Add_topics lg fname k topics (ins(topic \<mapsto> True)) (pt(topic \<mapsto> ps)) = (None, ins', pt')"
    by (simp split: if_splits sum.splits)
  from Cons.IH[OF rec] p show ?case
    by (simp add: fun_eq_iff)
qed


lemma Add_fails_iff:
  "fst (Add fname k fn topics g) \<noteq> None \<longleftrightarrow>
     (ops g fname \<noteq> None \<or>
      (\<exists>t \<in> set topics. t \<notin> DecodedTopics (log g) \<or> (\<exists>e. Partitions (log g) t = Inl e) \<or>
        (\<exists>ps. Partitions (log g) t = Inr ps \<and> int (length ps) > sint k)))"
proof (cases "ops g fname = None")
  case True
  have "fst (Add fname k fn topics g) = fst (Add_topics (log g) fname k topics Map.empty (parts g))"
    using True by (simp add: Add_def split: prod.splits option.splits)
  with True Add_topics_fails_iff[of "log g" fname k topics Map.empty "parts g"] show ?thesis
    by simp
next
  case False
  then show ?thesis by (simp add: Add_def)
qed

lemma Add_ok:
  assumes "fst (Add fname k fn topics g) = None"
  shows "snd (Add fname k fn topics g) =
     g\<lparr>parts := (\<lambda>t. if t \<in> set topics then (case Partitions (log g) t of Inr ps \<Rightarrow> Some ps | Inl e \<Rightarrow> None) else parts g t),
       ops := (ops g)(fname \<mapsto> \<lparr>op_n = k, op_f = fn, inputs = (\<lambda>t. if t \<in> set topics then Some True else None)\<rparr>)\<rparr>"
proof -
  from assms have free: "ops g fname = None" by (auto simp: Add_def split: if_splits)
  obtain r ins' pt' where at: "Add_topics (log g) fname k topics Map.empty (parts g) = (r, ins', pt')"
    by (cases "Add_topics (log g) fname k topics Map.empty (parts g)")
  with assms free have r: "r = None" by (cases r) (simp_all add: Add_def)
  from Add_topics_ok[OF at[unfolded r]] at r free show ?thesis
    by (simp add: Add_def)
qed

lemma Add_err:
  assumes "fst (Add fname k fn topics g) \<noteq> None"
  shows "log (snd (Add fname k fn topics g)) = log g"
    and "ops (snd (Add fname k fn topics g)) = ops g"
    and "t \<notin> set topics \<Longrightarrow> parts (snd (Add fname k fn topics g)) t = parts g t"
proof -
  obtain r ins' pt' where at: "Add_topics (log g) fname k topics Map.empty (parts g) = (r, ins', pt')"
    by (cases "Add_topics (log g) fname k topics Map.empty (parts g)")
  from assms at show "log (snd (Add fname k fn topics g)) = log g"
    and "ops (snd (Add fname k fn topics g)) = ops g"
    by (cases r; simp add: Add_def split: if_splits)+
  from assms at Add_topics_parts_frame[OF at]
  show "t \<notin> set topics \<Longrightarrow> parts (snd (Add fname k fn topics g)) t = parts g t"
    by (cases r; simp add: Add_def split: if_splits)
qed

lemma Add_result_depends:
  assumes "log g' = log g" and "ops g' = ops g"
  shows "fst (Add fname k fn topics g') = fst (Add fname k fn topics g)"
proof -
  have "fst (Add fname k fn topics h) =
      (if ops h fname \<noteq> None then Some (AlreadyAdded fname)
       else fst (Add_topics (log h) fname k topics Map.empty Map.empty))" for h
    using Add_topics_error_indep[of "log h" fname k topics Map.empty "parts h" Map.empty Map.empty]
    by (cases "Add_topics (log h) fname k topics Map.empty (parts h)")
       (auto simp: Add_def split: option.splits)
  with assms show ?thesis by simp
qed


lemma Add_topicA_3: "Add ''x'' 2 id [''topicA''] (topicA_grid [0, 1, 2]) =
    (Some (TooManyPartitions ''topicA'' ''x'' 3), (topicA_grid [0, 1, 2])\<lparr>parts := [''topicA'' \<mapsto> [0, 1, 2]]\<rparr>)"
  by (simp add: Add_def topicA_grid_def topicA_log_def)

lemma Add_topicA_2: "Add ''x'' 2 id [''topicA''] (topicA_grid [0, 1]) =
    (None, (topicA_grid [0, 1])\<lparr>parts := [''topicA'' \<mapsto> [0, 1]],
       ops := [''x'' \<mapsto> \<lparr>op_n = 2, op_f = id, inputs = [''topicA'' \<mapsto> True]\<rparr>]\<rparr>)"
  by (simp add: Add_def topicA_grid_def topicA_log_def)

text \<open>
  C1. \<open>Add\<close> returns an error exactly when the name is already in the operator
  registry, or some listed topic has no decoder, or partition discovery fails for some
  listed topic, or some listed topic has more partitions than \<open>n\<close>. When it returns
  no error, the registry holds the operator under the name, with the listed topics as
  its inputs, and the partition table holds the discovered partitions of every listed
  topic (other entries are as before). For a free name \<open>x\<close> and a decodable \<open>topicA\<close>
  whose partitions are discovered, \<open>Add("x", 2, f, "topicA")\<close> succeeds exactly when
  there are at most 2 partitions.
\<close>

theorem Add_validation:
  "(fst (Add fname k fn topics g) \<noteq> None \<longleftrightarrow>
      (ops g fname \<noteq> None \<or>
       (\<exists>t \<in> set topics. t \<notin> DecodedTopics (log g)) \<or>
       (\<exists>t \<in> set topics. \<exists>e. Partitions (log g) t = Inl e) \<or>
       (\<exists>t \<in> set topics. \<exists>ps. Partitions (log g) t = Inr ps \<and> int (length ps) > sint k))) \<and>
   (fst (Add fname k fn topics g) = None \<longrightarrow>
      ops (snd (Add fname k fn topics g)) =
        (ops g)(fname \<mapsto> \<lparr>op_n = k, op_f = fn, inputs = (\<lambda>t. if t \<in> set topics then Some True else None)\<rparr>) \<and>
      (\<forall>t \<in> set topics. \<exists>ps. Partitions (log g) t = Inr ps \<and>
         parts (snd (Add fname k fn topics g)) t = Some ps) \<and>
      (\<forall>t. t \<notin> set topics \<longrightarrow> parts (snd (Add fname k fn topics g)) t = parts g t)) \<and>
   (ops g ''x'' = None \<and> ''topicA'' \<in> DecodedTopics (log g) \<and> Partitions (log g) ''topicA'' = Inr qs \<longrightarrow>
      (fst (Add ''x'' 2 fn [''topicA''] g) = None \<longleftrightarrow> length qs \<le> 2))"
proof (intro conjI impI)
  show "fst (Add fname k fn topics g) \<noteq> None \<longleftrightarrow>
      (ops g fname \<noteq> None \<or>
       (\<exists>t \<in> set topics. t \<notin> DecodedTopics (log g)) \<or>
       (\<exists>t \<in> set topics. \<exists>e. Partitions (log g) t = Inl e) \<or>
       (\<exists>t \<in> set topics. \<exists>ps. Partitions (log g) t = Inr ps \<and> int (length ps) > sint k))"
    unfolding Add_fails_iff by blast
next
  assume ok: "fst (Add fname k fn topics g) = None"
  show "ops (snd (Add fname k fn topics g)) =
        (ops g)(fname \<mapsto> \<lparr>op_n = k, op_f = fn, inputs = (\<lambda>t. if t \<in> set topics then Some True else None)\<rparr>)"
    by (simp add: Add_ok[OF ok])
  show "\<forall>t. t \<notin> set topics \<longrightarrow> parts (snd (Add fname k fn topics g)) t = parts g t"
    by (simp add: Add_ok[OF ok])
  show "\<forall>t \<in> set topics. \<exists>ps. Partitions (log g) t = Inr ps \<and>
         parts (snd (Add fname k fn topics g)) t = Some ps"
  proof
    fix t assume t: "t \<in> set topics"
    from ok have "\<not> fst (Add fname k fn topics g) \<noteq> None" by simp
    with t have "\<not> (\<exists>e. Partitions (log g) t = Inl e)"
      unfolding Add_fails_iff by blast
    then obtain ps where "Partitions (log g) t = Inr ps"
      by (cases "Partitions (log g) t") auto
    with t show "\<exists>ps. Partitions (log g) t = Inr ps \<and> parts (snd (Add fname k fn topics g)) t = Some ps"
      by (simp add: Add_ok[OF ok])
  qed
next
  assume "ops g ''x'' = None \<and> ''topicA'' \<in> DecodedTopics (log g) \<and> Partitions (log g) ''topicA'' = Inr qs"
  then show "fst (Add ''x'' 2 fn [''topicA''] g) = None \<longleftrightarrow> length qs \<le> 2"
    using Add_fails_iff[of "''x''" 2 fn "[''topicA'']" g] by auto
qed

text \<open>
  The theorem at work: three partitions are refused, two are accepted and recorded.
\<close>

theorem Add_validation_witness:
  "fst (Add ''x'' 2 id [''topicA''] (topicA_grid [0, 1, 2])) \<noteq> None \<and>
   fst (Add ''x'' 2 id [''topicA''] (topicA_grid [0, 1])) = None \<and>
   ops (snd (Add ''x'' 2 id [''topicA''] (topicA_grid [0, 1]))) ''x'' \<noteq> None \<and>
   parts (snd (Add ''x'' 2 id [''topicA''] (topicA_grid [0, 1]))) ''topicA'' = Some [0, 1]"
proof -
  have a: "ops (topicA_grid ps) ''x'' = None \<and> ''topicA'' \<in> DecodedTopics (log (topicA_grid ps)) \<and>
      Partitions (log (topicA_grid ps)) ''topicA'' = Inr ps" for ps
    by (simp add: topicA_grid_def topicA_log_def)
  have ok: "fst (Add ''x'' 2 id [''topicA''] (topicA_grid [0, 1])) = None"
    using Add_validation[of "''x''" 2 id "[''topicA'']" "topicA_grid [0, 1]" "[0, 1]"] a[of "[0, 1]"]
    by simp
  have bad: "fst (Add ''x'' 2 id [''topicA''] (topicA_grid [0, 1, 2])) \<noteq> None"
    using Add_validation[of "''x''" 2 id "[''topicA'']" "topicA_grid [0, 1, 2]" "[0, 1, 2]"] a[of "[0, 1, 2]"]
    by simp
  from Add_validation[of "''x''" 2 id "[''topicA'']" "topicA_grid [0, 1]" "[0, 1]"] ok a[of "[0, 1]"] bad
  show ?thesis by auto
qed

text \<open>
  C10, as amended. When \<open>Add\<close> returns an error the operator registry is unchanged, and
  any later \<open>Add\<close> under the same name ends as it would have ended without the failed
  call. If the name was free it is still free and a later \<open>Add\<close> under it can succeed
  (one without topics does); if the failure was the duplicate-name error the name is
  and stays registered and every later \<open>Add\<close> under it fails again. The partition
  table keeps its entries for topics that were not listed, but entries of listed topics
  discovered before the failing check stay written.
\<close>

theorem Add_error_frame:
  "fst (Add fname k fn topics g) \<noteq> None \<longrightarrow>
     ops (snd (Add fname k fn topics g)) = ops g \<and>
     fst (Add fname k2 fn2 topics2 (snd (Add fname k fn topics g))) = fst (Add fname k2 fn2 topics2 g) \<and>
     (ops g fname = None \<longrightarrow>
        ops (snd (Add fname k fn topics g)) fname = None \<and>
        fst (Add fname k2 fn2 [] (snd (Add fname k fn topics g))) = None) \<and>
     (ops g fname \<noteq> None \<longrightarrow>
        fst (Add fname k2 fn2 topics2 (snd (Add fname k fn topics g))) = Some (AlreadyAdded fname)) \<and>
     (\<forall>t. t \<notin> set topics \<longrightarrow> parts (snd (Add fname k fn topics g)) t = parts g t)"
proof
  assume e: "fst (Add fname k fn topics g) \<noteq> None"
  note fr = Add_err[OF e]
  have same: "fst (Add fname k' fn' topics' (snd (Add fname k fn topics g))) = fst (Add fname k' fn' topics' g)"
    for k' fn' topics'
    by (rule Add_result_depends) (simp_all add: fr)
  have empty: "ops g fname = None \<Longrightarrow> fst (Add fname k2 fn2 [] g) = None"
    by (simp add: Add_def)
  have dup: "ops g fname \<noteq> None \<Longrightarrow> fst (Add fname k2 fn2 topics2 g) = Some (AlreadyAdded fname)"
    by (simp add: Add_def)
  from fr same empty dup
  show "ops (snd (Add fname k fn topics g)) = ops g \<and>
     fst (Add fname k2 fn2 topics2 (snd (Add fname k fn topics g))) = fst (Add fname k2 fn2 topics2 g) \<and>
     (ops g fname = None \<longrightarrow>
        ops (snd (Add fname k fn topics g)) fname = None \<and>
        fst (Add fname k2 fn2 [] (snd (Add fname k fn topics g))) = None) \<and>
     (ops g fname \<noteq> None \<longrightarrow>
        fst (Add fname k2 fn2 topics2 (snd (Add fname k fn topics g))) = Some (AlreadyAdded fname)) \<and>
     (\<forall>t. t \<notin> set topics \<longrightarrow> parts (snd (Add fname k fn topics g)) t = parts g t)"
    by simp
qed

text \<open>
  The theorem at work, and the partition table that is not restored: the refused
  registration of \<open>x\<close> over a \<open>topicA\<close> of three partitions leaves the three partitions
  in the table, the registry as it was, and \<open>x\<close> free for a later \<open>Add\<close>.
\<close>

theorem Add_error_frame_witness:
  "fst (Add ''x'' 2 id [''topicA''] (topicA_grid [0, 1, 2])) = Some (TooManyPartitions ''topicA'' ''x'' 3) \<and>
   ops (snd (Add ''x'' 2 id [''topicA''] (topicA_grid [0, 1, 2]))) = ops (topicA_grid [0, 1, 2]) \<and>
   ops (snd (Add ''x'' 2 id [''topicA''] (topicA_grid [0, 1, 2]))) ''x'' = None \<and>
   fst (Add ''x'' 3 id [] (snd (Add ''x'' 2 id [''topicA''] (topicA_grid [0, 1, 2])))) = None \<and>
   parts (topicA_grid [0, 1, 2]) ''topicA'' = None \<and>
   parts (snd (Add ''x'' 2 id [''topicA''] (topicA_grid [0, 1, 2]))) ''topicA'' = Some [0, 1, 2]"
proof -
  have e: "fst (Add ''x'' 2 id [''topicA''] (topicA_grid [0, 1, 2])) \<noteq> None"
    by (simp add: Add_topicA_3)
  have free: "ops (topicA_grid [0, 1, 2]) ''x'' = None"
    by (simp add: topicA_grid_def)
  from Add_error_frame[of "''x''" 2 id "[''topicA'']" "topicA_grid [0, 1, 2]" 3 id "[]"] e free
  have "ops (snd (Add ''x'' 2 id [''topicA''] (topicA_grid [0, 1, 2]))) = ops (topicA_grid [0, 1, 2]) \<and>
   ops (snd (Add ''x'' 2 id [''topicA''] (topicA_grid [0, 1, 2]))) ''x'' = None \<and>
   fst (Add ''x'' 3 id [] (snd (Add ''x'' 2 id [''topicA''] (topicA_grid [0, 1, 2])))) = None"
    by blast
  moreover have "parts (topicA_grid [0, 1, 2]) ''topicA'' = None"
    by (simp add: topicA_grid_def)
  ultimately show ?thesis
    by (simp add: Add_topicA_3)
qed

text \<open>
  C10 as stated fails for the duplicate-name error: the second \<open>Add\<close> of \<open>x\<close> returns an
  error, yet \<open>x\<close> is registered afterwards, and a later \<open>Add\<close> of \<open>x\<close> fails as well.
\<close>

theorem Add_duplicate_counterexample:
  "fst (Add ''x'' 2 id [''topicA''] (snd (Add ''x'' 2 id [''topicA''] (topicA_grid [0, 1]))))
     = Some (AlreadyAdded ''x'') \<and>
   ops (snd (Add ''x'' 2 id [''topicA''] (snd (Add ''x'' 2 id [''topicA''] (topicA_grid [0, 1]))))) ''x''
     \<noteq> None \<and>
   fst (Add ''x'' 2 id [] (snd (Add ''x'' 2 id [''topicA'']
       (snd (Add ''x'' 2 id [''topicA''] (topicA_grid [0, 1]))))))
     = Some (AlreadyAdded ''x'')"
  by (simp add: Add_topicA_2) (simp add: Add_def)


section \<open>The quorum stored at construction\<close>

lemma int_quot_two: "1 \<le> sint p \<Longrightarrow> int_quot p 2 = word_of_int (sint p div 2)"
  by (simp add: int_quot_def sgn_if)

lemma ucast_word_of_int_32: "(ucast (word_of_int j :: 64 word) :: 32 word) = word_of_int j"
  by (rule bit_word_eqI) (auto simp: bit_simps)

lemma quorum_value:
  assumes "1 \<le> sint p"
  shows "uint (ucast (int_quot p 2 + 1) :: 32 word) = (sint p div 2 + 1) mod 2 ^ 32"
proof -
  have "int_quot p 2 + 1 = word_of_int (sint p div 2 + 1)"
    using int_quot_two[OF assms] by simp
  then show ?thesis
    by (simp only: ucast_word_of_int_32 uint_word_of_int) simp
qed

lemma NewWithKafkaConfig_fields:
  "NewWithKafkaConfig newlog name peers = Inr g \<Longrightarrow>
     quorum g = ucast (int_quot peers 2 + 1) \<and> npeers g = peers"
  by (auto simp: NewWithKafkaConfig_def AddEncoder_def AddDecoder_def Let_def split: sum.splits)

text \<open>
  C7, as amended. For a peer count \<open>npeers \<ge> 1\<close> the grid built by
  \<open>NewWithKafkaConfig\<close> stores the low 32 bits of \<open>\<lfloor>npeers/2\<rfloor> + 1\<close>; this is
  \<open>\<lfloor>npeers/2\<rfloor> + 1\<close> itself as long as \<open>npeers < 2^33 - 2 = 8589934590\<close>, that is, as
  long as the value fits the \<open>uint32\<close> field.
\<close>

theorem NewWithKafkaConfig_quorum:
  assumes "NewWithKafkaConfig newlog name peers = Inr g" and "1 \<le> sint peers"
  shows "uint (quorum g) = (sint peers div 2 + 1) mod 2 ^ 32 \<and>
         (sint peers < 8589934590 \<longrightarrow> uint (quorum g) = sint peers div 2 + 1)"
proof -
  from NewWithKafkaConfig_fields[OF assms(1)] quorum_value[OF assms(2)]
  have q: "uint (quorum g) = (sint peers div 2 + 1) mod 2 ^ 32" by simp
  have "(sint peers div 2 + 1) mod 2 ^ 32 = sint peers div 2 + 1" if "sint peers < 8589934590"
  proof -
    from assms(2) that have "0 \<le> sint peers div 2 + 1" "sint peers div 2 + 1 < 2 ^ 32" by simp_all
    then show ?thesis by (rule mod_pos_pos_trivial)
  qed
  with q show ?thesis by simp
qed

text \<open>The theorem at work: three peers need two confirmations.\<close>

theorem NewWithKafkaConfig_quorum_witness:
  "\<exists>g. NewWithKafkaConfig sample_newlog ''g'' 3 = Inr g \<and> (1::int) \<le> sint (3 :: goint) \<and>
       uint (quorum g) = 2 \<and> npeers g = 3"
proof -
  obtain g where g: "NewWithKafkaConfig sample_newlog ''g'' 3 = Inr g"
    by (simp add: NewWithKafkaConfig_def sample_newlog_def Let_def)
  have p: "(1::int) \<le> sint (3 :: goint)" by simp
  from NewWithKafkaConfig_quorum[OF g p] NewWithKafkaConfig_fields[OF g] g p show ?thesis by simp
qed

text \<open>
  C7 as stated fails for \<open>npeers = 2^33 - 2\<close>, a value of Go's 64-bit \<open>int\<close>: the quorum
  would be \<open>2^32\<close>, and the \<open>uint32\<close> conversion stores 0.
\<close>

theorem quorum_wraps_counterexample:
  "map_sum id quorum (NewWithKafkaConfig sample_newlog ''g'' 8589934590) = Inr 0 \<and>
   map_sum id npeers (NewWithKafkaConfig sample_newlog ''g'' 8589934590) = Inr 8589934590 \<and>
   sint (8589934590 :: goint) = 8589934590 \<and>
   (8589934590 :: int) div 2 + 1 = 4294967296"
  by (simp add: NewWithKafkaConfig_def sample_newlog_def Let_def AddEncoder_def AddDecoder_def int_quot_def)

section \<open>Merge: every event is delivered and marked once\<close>

lemma sum_list_map_update:
  fixes g :: "'a \<Rightarrow> 'b::comm_monoid_add"
  shows "i < length xs \<Longrightarrow> sum_list (map g (xs[i := y])) + g (xs ! i) = sum_list (map g xs) + g y"
proof (induction xs arbitrary: i)
  case Nil
  then show ?case by simp
next
  case (Cons x xs)
  then show ?case by (cases i) (simp_all add: ac_simps)
qed

lemma Count_MeterMark: "Count h (MeterMark h' k ms) = Count h ms + (if h' = h then k else 0)"
  by (cases h; cases h') (simp add: Count_def MeterMark_def)

lemma own_marks_Cons: "own_marks (a # as) = own_marks [a] + own_marks as"
  by (cases a) simp_all

lemma outside_marks_Cons: "outside_marks h (a # as) = outside_marks h [a] + outside_marks h as"
  by (cases a) simp_all

lemma merge_step_events:
  assumes "merge_step a s = Some s'"
  shows "merge_events s' = merge_events s"
proof (cases a)
  case (Recv i)
  with assms obtain m rest where l: "i < length (lanes s)" "lanes s ! i = (m # rest, Receiving)"
    and s': "s' = s\<lparr>lanes := (lanes s)[i := (rest, Sending m)]\<rparr>"
    by (auto split: if_splits prod.splits list.splits worker.splits)
  from sum_list_map_update[OF l(1), of lane_events "(rest, Sending m)"] l(2)
  show ?thesis by (simp add: merge_events_def s')
next
  case (Send i)
  with assms obtain c m where l: "i < length (lanes s)" "lanes s ! i = (c, Sending m)"
    and s': "s' = s\<lparr>lanes := (lanes s)[i := (c, Marking)], merged := merged s @ [m]\<rparr>"
    by (auto split: if_splits prod.splits list.splits worker.splits)
  from sum_list_map_update[OF l(1), of lane_events "(c, Marking)"] l(2)
  have h: "sum_list (map lane_events (lanes s)) = sum_list (map lane_events ((lanes s)[i := (c, Marking)])) + {#m#}"
    by (simp add: ac_simps)
  show ?thesis by (simp add: merge_events_def s' h)
next
  case (Mark i)
  with assms obtain c where l: "i < length (lanes s)" "lanes s ! i = (c, Marking)"
    and s': "s' = s\<lparr>lanes := (lanes s)[i := (c, Receiving)], metrics := MeterMark (rate s) 1 (metrics s)\<rparr>"
    by (auto split: if_splits prod.splits list.splits worker.splits)
  from sum_list_map_update[OF l(1), of lane_events "(c, Receiving)"] l(2)
  show ?thesis by (simp add: merge_events_def s')
next
  case Deliver
  with assms show ?thesis
    by (auto simp: merge_events_def split: list.splits)
next
  case (Outside h)
  with assms show ?thesis
    by (auto simp: merge_events_def)
qed

lemma merge_step_rate: "merge_step a s = Some s' \<Longrightarrow> rate s' = rate s"
  by (cases a) (auto split: if_splits prod.splits list.splits worker.splits)

text \<open>
  Two balances kept by every step: the meter's count against the marks still owed, the
  messages handed to \<open>merged\<close> and the marks others make; and the marks this merge has
  made against the marks still owed and the messages handed to \<open>merged\<close>.
\<close>

lemma merge_step_count:
  assumes "merge_step a s = Some s'"
  shows "meter_count s' + merge_owed s' + (length (merged s) + length (delivered s))
       = meter_count s + merge_owed s + (length (merged s') + length (delivered s'))
         + outside_marks (rate s) [a] \<and>
         own_marks [a] + merge_owed s' + (length (merged s) + length (delivered s))
       = merge_owed s + (length (merged s') + length (delivered s'))"
proof (cases a)
  case (Recv i)
  with assms obtain m rest where l: "i < length (lanes s)" "lanes s ! i = (m # rest, Receiving)"
    and s': "s' = s\<lparr>lanes := (lanes s)[i := (rest, Sending m)]\<rparr>"
    by (auto split: if_splits prod.splits list.splits worker.splits)
  from sum_list_map_update[OF l(1), of lane_owed "(rest, Sending m)"] l(2) Recv
  show ?thesis by (simp add: merge_owed_def meter_count_def s')
next
  case (Send i)
  with assms obtain c m where l: "i < length (lanes s)" "lanes s ! i = (c, Sending m)"
    and s': "s' = s\<lparr>lanes := (lanes s)[i := (c, Marking)], merged := merged s @ [m]\<rparr>"
    by (auto split: if_splits prod.splits list.splits worker.splits)
  from sum_list_map_update[OF l(1), of lane_owed "(c, Marking)"] l(2) Send
  show ?thesis by (simp add: merge_owed_def meter_count_def s')
next
  case (Mark i)
  with assms obtain c where l: "i < length (lanes s)" "lanes s ! i = (c, Marking)"
    and s': "s' = s\<lparr>lanes := (lanes s)[i := (c, Receiving)], metrics := MeterMark (rate s) 1 (metrics s)\<rparr>"
    by (auto split: if_splits prod.splits list.splits worker.splits)
  from sum_list_map_update[OF l(1), of lane_owed "(c, Receiving)"] l(2) Mark
  show ?thesis by (simp add: merge_owed_def meter_count_def s' Count_MeterMark)
next
  case Deliver
  with assms show ?thesis
    by (auto simp: merge_owed_def meter_count_def split: list.splits)
next
  case (Outside h)
  with assms show ?thesis
    by (auto simp: merge_owed_def meter_count_def Count_MeterMark)
qed

lemma merge_step_weight:
  assumes "merge_step a s = Some s'" and "\<And>h. a \<noteq> Outside h"
  shows "Suc (merge_weight s') = merge_weight s"
proof (cases a)
  case (Recv i)
  with assms obtain m rest where l: "i < length (lanes s)" "lanes s ! i = (m # rest, Receiving)"
    and s': "s' = s\<lparr>lanes := (lanes s)[i := (rest, Sending m)]\<rparr>"
    by (auto split: if_splits prod.splits list.splits worker.splits)
  from sum_list_map_update[OF l(1), of lane_weight "(rest, Sending m)"] l(2)
  show ?thesis by (simp add: merge_weight_def s')
next
  case (Send i)
  with assms obtain c m where l: "i < length (lanes s)" "lanes s ! i = (c, Sending m)"
    and s': "s' = s\<lparr>lanes := (lanes s)[i := (c, Marking)], merged := merged s @ [m]\<rparr>"
    by (auto split: if_splits prod.splits list.splits worker.splits)
  from sum_list_map_update[OF l(1), of lane_weight "(c, Marking)"] l(2)
  show ?thesis by (simp add: merge_weight_def s')
next
  case (Mark i)
  with assms obtain c where l: "i < length (lanes s)" "lanes s ! i = (c, Marking)"
    and s': "s' = s\<lparr>lanes := (lanes s)[i := (c, Receiving)], metrics := MeterMark (rate s) 1 (metrics s)\<rparr>"
    by (auto split: if_splits prod.splits list.splits worker.splits)
  from sum_list_map_update[OF l(1), of lane_weight "(c, Receiving)"] l(2)
  show ?thesis by (simp add: merge_weight_def s')
next
  case Deliver
  with assms show ?thesis
    by (auto simp: merge_weight_def split: list.splits)
next
  case (Outside h)
  with assms(2)[of h] show ?thesis by simp
qed

lemma merge_run_append:
  "merge_run (xs @ ys) s = (case merge_run xs s of None \<Rightarrow> None | Some s' \<Rightarrow> merge_run ys s')"
  by (induction xs arbitrary: s) (auto split: option.splits)

lemma merge_run_invariants:
  "merge_run sched s = Some s' \<Longrightarrow>
     merge_events s' = merge_events s \<and> rate s' = rate s \<and>
     meter_count s' + merge_owed s' + (length (merged s) + length (delivered s))
       = meter_count s + merge_owed s + (length (merged s') + length (delivered s'))
         + outside_marks (rate s) sched \<and>
     own_marks sched + merge_owed s' + (length (merged s) + length (delivered s))
       = merge_owed s + (length (merged s') + length (delivered s'))"
proof (induction sched arbitrary: s)
  case Nil
  then show ?case by simp
next
  case (Cons a sched)
  then obtain s1 where a: "merge_step a s = Some s1" and r: "merge_run sched s1 = Some s'"
    by (auto split: option.splits)
  from Cons.IH[OF r] merge_step_events[OF a] merge_step_rate[OF a] merge_step_count[OF a]
  show ?case
    by (simp add: own_marks_Cons[of a sched] outside_marks_Cons[of "rate s" a sched])
qed

lemma merge_quiescent_drained:
  assumes "merge_quiescent s"
  shows "merged s = [] \<and> (\<forall>l \<in> set (lanes s). l = ([], Receiving))"
proof -
  from assms have d: "merge_step Deliver s = None"
    and all: "\<And>i. i < length (lanes s) \<Longrightarrow>
       merge_step (Recv i) s = None \<and> merge_step (Send i) s = None \<and> merge_step (Mark i) s = None"
    by (auto simp: merge_quiescent_def merge_actions_def list_all_iff)
  from d have m: "merged s = []" by (auto split: list.splits)
  have "l = ([], Receiving)" if "l \<in> set (lanes s)" for l
  proof -
    from that obtain i where i: "i < length (lanes s)" "lanes s ! i = l"
      by (auto simp: in_set_conv_nth)
    obtain c w where l: "l = (c, w)" by (cases l)
    from all[OF i(1)] i l m show ?thesis
      by (cases w; cases c) (auto split: if_splits)
  qed
  with m show ?thesis by blast
qed


lemma merge_can_finish:
  "\<exists>rest s'. merge_run rest s = Some s' \<and> merge_quiescent s' \<and> (\<forall>h. outside_marks h rest = 0)"
proof (induction "merge_weight s" arbitrary: s rule: less_induct)
  case less
  show ?case
  proof (cases "merge_quiescent s")
    case True
    then have "merge_run [] s = Some s \<and> merge_quiescent s \<and> (\<forall>h. outside_marks h [] = 0)"
      by simp
    then show ?thesis by blast
  next
    case False
    then obtain a s1 where a: "merge_step a s = Some s1" and own: "a \<in> set (merge_actions s)"
      by (auto simp: merge_quiescent_def list_all_iff)
    from own have no: "a \<noteq> Outside h" for h
      by (auto simp: merge_actions_def)
    from merge_step_weight[OF a no] have "merge_weight s1 < merge_weight s" by simp
    from less[OF this] obtain rest s' where rest: "merge_run rest s1 = Some s'" "merge_quiescent s'"
      "\<forall>h. outside_marks h rest = 0"
      by blast
    from no have "outside_marks h [a] = 0" for h by (cases a) simp_all
    with rest(3) have "\<forall>h. outside_marks h (a # rest) = 0"
      by (simp add: outside_marks_Cons[of _ a rest])
    with a rest(1,2) have "merge_run (a # rest) s = Some s' \<and> merge_quiescent s' \<and>
        (\<forall>h. outside_marks h (a # rest) = 0)"
      by simp
    then show ?thesis by blast
  qed
qed

lemma lanes_fresh_events: "sum_list (map (lane_events \<circ> (\<lambda>c. (c, Receiving))) ins) = mset (concat ins)"
  by (induction ins) simp_all

lemma lanes_fresh_owed: "sum_list (map (lane_owed \<circ> (\<lambda>c. (c, Receiving))) ins) = 0"
  by (induction ins) simp_all

lemma lanes_drained:
  "\<forall>l \<in> set ls. l = ([], Receiving) \<Longrightarrow>
     sum_list (map lane_events ls) = {#} \<and> sum_list (map lane_owed ls) = 0"
  by (induction ls) simp_all

lemma merge_fields:
  "lanes (merge g fname ins ms) = map (\<lambda>c. (c, Receiving)) ins"
  "merged (merge g fname ins ms) = []"
  "delivered (merge g fname ins ms) = []"
  "rate (merge g fname ins ms) = fst (GetOrRegisterMeter (fname @ ''-msg-rate'') (registry g) ms)"
  "metrics (merge g fname ins ms) = snd (GetOrRegisterMeter (fname @ ''-msg-rate'') (registry g) ms)"
  by (simp_all add: merge_def split: prod.splits)

lemma Count_GetOrRegisterMeter:
  "Count (fst (GetOrRegisterMeter name r ms)) (snd (GetOrRegisterMeter name r ms))
     = Count (fst (GetOrRegisterMeter name r ms)) ms"
  by (simp add: GetOrRegisterMeter_def Count_def Let_def split: option.splits)

lemma merge_initial:
  "merge_events (merge g fname ins ms) = mset (concat ins) \<and>
   merge_owed (merge g fname ins ms) = 0 \<and>
   merged (merge g fname ins ms) = [] \<and> delivered (merge g fname ins ms) = [] \<and>
   rate (merge g fname ins ms) = fst (GetOrRegisterMeter (fname @ ''-msg-rate'') (registry g) ms) \<and>
   meter_count (merge g fname ins ms) = Count (fst (GetOrRegisterMeter (fname @ ''-msg-rate'') (registry g) ms)) ms"
  by (simp add: merge_events_def merge_owed_def meter_count_def merge_fields
      lanes_fresh_events lanes_fresh_owed Count_GetOrRegisterMeter)

text \<open>
  C2, as amended. Take any interleaving of the goroutines of \<open>merge(name, inputs)\<close>, of
  the consumer of the merged stream and of the other holders of meters. The merge and
  its consumer can always go on by themselves until nothing is left for them to do;
  and once nothing is left to do, the consumer has received exactly the events of all
  inputs (as a multiset; their number is the sum of the input counts), and the merge
  has marked the meter of the grid's registry under \<open>name-msg-rate\<close> once per event.
  The count of that meter is then the count it had when \<open>merge\<close> was called, plus that
  sum, plus the marks the other holders of the same meter made meanwhile. It equals
  the sum when the meter was new or at zero and nobody else marked it.
\<close>

theorem merge_accounting:
  assumes "merge_run sched (merge g fname ins ms) = Some s"
  shows "(\<exists>rest s'. merge_run (sched @ rest) (merge g fname ins ms) = Some s' \<and> merge_quiescent s' \<and>
            (\<forall>h. outside_marks h rest = 0)) \<and>
         (merge_quiescent s \<longrightarrow>
            mset (delivered s) = mset (concat ins) \<and>
            length (delivered s) = sum_list (map length ins) \<and>
            rate s = (case registry g of None \<Rightarrow> DefaultRegistry | Some r \<Rightarrow> r, fname @ ''-msg-rate'') \<and>
            own_marks sched = sum_list (map length ins) \<and>
            meter_count s = Count (rate s) ms + sum_list (map length ins) + outside_marks (rate s) sched)"
proof
  from merge_can_finish[of s] obtain rest s' where "merge_run rest s = Some s'" "merge_quiescent s'"
    "\<forall>h. outside_marks h rest = 0"
    by blast
  with assms have "merge_run (sched @ rest) (merge g fname ins ms) = Some s' \<and> merge_quiescent s' \<and>
      (\<forall>h. outside_marks h rest = 0)"
    by (simp add: merge_run_append)
  then show "\<exists>rest s'. merge_run (sched @ rest) (merge g fname ins ms) = Some s' \<and> merge_quiescent s' \<and>
      (\<forall>h. outside_marks h rest = 0)"
    by blast
next
  show "merge_quiescent s \<longrightarrow>
            mset (delivered s) = mset (concat ins) \<and>
            length (delivered s) = sum_list (map length ins) \<and>
            rate s = (case registry g of None \<Rightarrow> DefaultRegistry | Some r \<Rightarrow> r, fname @ ''-msg-rate'') \<and>
            own_marks sched = sum_list (map length ins) \<and>
            meter_count s = Count (rate s) ms + sum_list (map length ins) + outside_marks (rate s) sched"
  proof
    assume q: "merge_quiescent s"
    note inv = merge_run_invariants[OF assms]
    note ini = merge_initial[of g fname ins ms]
    from merge_quiescent_drained[OF q] have m: "merged s = []"
      and dr: "sum_list (map lane_events (lanes s)) = {#}" "sum_list (map lane_owed (lanes s)) = 0"
      using lanes_drained[of "lanes s"] by auto
    from inv ini m dr have ev: "mset (delivered s) = mset (concat ins)"
      by (simp add: merge_events_def[of s])
    then have "size (mset (delivered s)) = size (mset (concat ins))" by simp
    then have len: "length (delivered s) = sum_list (map length ins)"
      by (simp add: length_concat)
    from inv ini have r: "rate s = fst (GetOrRegisterMeter (fname @ ''-msg-rate'') (registry g) ms)"
      and r0: "rate (merge g fname ins ms) = rate s"
      by simp_all
    from r have nm: "rate s =
        (case registry g of None \<Rightarrow> DefaultRegistry | Some r \<Rightarrow> r, fname @ ''-msg-rate'')"
      by (simp add: GetOrRegisterMeter_def Let_def split: option.splits)
    from inv ini m dr len have own: "own_marks sched = sum_list (map length ins)"
      by (simp add: merge_owed_def)
    from inv ini m dr r r0 len
    have "meter_count s = Count (rate s) ms + sum_list (map length ins) + outside_marks (rate s) sched"
      by (simp add: merge_owed_def)
    with ev len nm own show "mset (delivered s) = mset (concat ins) \<and>
            length (delivered s) = sum_list (map length ins) \<and>
            rate s = (case registry g of None \<Rightarrow> DefaultRegistry | Some r \<Rightarrow> r, fname @ ''-msg-rate'') \<and>
            own_marks sched = sum_list (map length ins) \<and>
            meter_count s = Count (rate s) ms + sum_list (map length ins) + outside_marks (rate s) sched"
      by simp
  qed
qed

text \<open>
  The theorem at work on two input streams of one event each, with the second
  goroutine overtaking the first and another instance of the operator marking the
  same meter once in between: the merge makes its two marks, the meter ends at 3.
\<close>

theorem merge_accounting_witness:
  "\<exists>s. merge_run [Recv 0, Recv 1, Send 1, Outside (DefaultRegistry, ''x-msg-rate''), Mark 1,
            Send 0, Deliver, Mark 0, Deliver]
          (merge (topicA_grid [0, 1]) ''x'' [[mk_event ''topicA'' ''k1''], [mk_event ''topicA'' ''k2'']] no_meters)
        = Some s \<and>
       merge_quiescent s \<and>
       delivered s = [mk_event ''topicA'' ''k2'', mk_event ''topicA'' ''k1''] \<and>
       length (delivered s) = 2 \<and>
       rate s = (DefaultRegistry, ''x-msg-rate'') \<and>
       own_marks [Recv 0, Recv 1, Send 1, Outside (DefaultRegistry, ''x-msg-rate''), Mark 1,
            Send 0, Deliver, Mark 0, Deliver] = 2 \<and>
       meter_count s = 3"
proof -
  have "\<exists>s. merge_run [Recv 0, Recv 1, Send 1, Outside (DefaultRegistry, ''x-msg-rate''), Mark 1,
            Send 0, Deliver, Mark 0, Deliver]
          (merge (topicA_grid [0, 1]) ''x'' [[mk_event ''topicA'' ''k1''], [mk_event ''topicA'' ''k2'']] no_meters)
        = Some s \<and> merge_quiescent s \<and>
        delivered s = [mk_event ''topicA'' ''k2'', mk_event ''topicA'' ''k1''] \<and>
        rate s = (DefaultRegistry, ''x-msg-rate'')"
    by (simp add: merge_def GetOrRegisterMeter_def topicA_grid_def no_meters_def
        merge_quiescent_def merge_actions_def)
  then obtain s where run: "merge_run [Recv 0, Recv 1, Send 1, Outside (DefaultRegistry, ''x-msg-rate''), Mark 1,
            Send 0, Deliver, Mark 0, Deliver]
          (merge (topicA_grid [0, 1]) ''x'' [[mk_event ''topicA'' ''k1''], [mk_event ''topicA'' ''k2'']] no_meters)
        = Some s" and q: "merge_quiescent s"
    and d: "delivered s = [mk_event ''topicA'' ''k2'', mk_event ''topicA'' ''k1'']"
    and r: "rate s = (DefaultRegistry, ''x-msg-rate'')"
    by blast
  from merge_accounting[OF run] q r
  have "length (delivered s) = 2 \<and> meter_count s = 3 \<and>
      own_marks [Recv 0, Recv 1, Send 1, Outside (DefaultRegistry, ''x-msg-rate''), Mark 1,
            Send 0, Deliver, Mark 0, Deliver] = 2"
    by (simp add: Count_def no_meters_def)
  with run q d r show ?thesis by blast
qed

lemma meters_after_first_eq:
  "meters_after_first = no_meters(DefaultRegistry := [''x-msg-rate'' \<mapsto> 1])"
  by (simp add: meters_after_first_def one_event_schedule_def merge_def GetOrRegisterMeter_def
      topicA_grid_def no_meters_def MeterMark_def Count_def)

text \<open>
  C2 as stated fails when the meter is shared, as it is when a second instance of the
  same operator is started on the grid. After an earlier instance has merged one event,
  the merge of one stream of one event ends with the meter \<open>x-msg-rate\<close> at 2; and on
  a new meter, the merge of one stream of one event ends with the meter at 2 when the
  other instance marks it meanwhile. The sum of the input counts is 1 in both runs.
\<close>

theorem merge_meter_shared_counterexample:
  "map_option delivered (merge_run one_event_schedule
      (merge (topicA_grid [0, 1]) ''x'' [[mk_event ''topicA'' ''k2'']] meters_after_first))
     = Some [mk_event ''topicA'' ''k2''] \<and>
   map_option merge_quiescent (merge_run one_event_schedule
      (merge (topicA_grid [0, 1]) ''x'' [[mk_event ''topicA'' ''k2'']] meters_after_first))
     = Some True \<and>
   map_option rate (merge_run one_event_schedule
      (merge (topicA_grid [0, 1]) ''x'' [[mk_event ''topicA'' ''k2'']] meters_after_first))
     = Some (DefaultRegistry, ''x-msg-rate'') \<and>
   map_option meter_count (merge_run one_event_schedule
      (merge (topicA_grid [0, 1]) ''x'' [[mk_event ''topicA'' ''k2'']] meters_after_first))
     = Some 2 \<and>
   map_option merge_quiescent (merge_run [Recv 0, Send 0, Outside (DefaultRegistry, ''x-msg-rate''), Mark 0, Deliver]
      (merge (topicA_grid [0, 1]) ''x'' [[mk_event ''topicA'' ''k2'']] no_meters))
     = Some True \<and>
   map_option meter_count (merge_run [Recv 0, Send 0, Outside (DefaultRegistry, ''x-msg-rate''), Mark 0, Deliver]
      (merge (topicA_grid [0, 1]) ''x'' [[mk_event ''topicA'' ''k2'']] no_meters))
     = Some 2 \<and>
   sum_list (map length [[mk_event ''topicA'' ''k2'']]) = 1"
  by (simp add: meters_after_first_eq one_event_schedule_def merge_def GetOrRegisterMeter_def
      topicA_grid_def no_meters_def MeterMark_def Count_def meter_count_def
      merge_quiescent_def merge_actions_def)

section \<open>Demultiplexing: competing goroutines\<close>

text \<open>
  What does hold under every interleaving: an event only ever appears on the channel of
  its own topic.
\<close>

lemma upd_buf_by_topic:
  assumes "\<And>t buf e. m t = Some buf \<Longrightarrow> e \<in> set buf \<Longrightarrow> Topic e = t"
    and "\<And>e. e \<in> set new \<Longrightarrow> Topic e = k"
    and "(m(k \<mapsto> new)) t = Some buf" and "e \<in> set buf"
  shows "Topic e = t"
proof (cases "t = k")
  case True
  with assms(3) have "buf = new" by simp
  with assms(2,4) True show ?thesis by simp
next
  case False
  with assms(3) have "m t = Some buf" by simp
  from assms(1)[OF this assms(4)] show ?thesis .
qed

lemma upd_written_by_topic:
  assumes "\<And>t e. e \<in> set (w t) \<Longrightarrow> Topic e = t"
    and "Topic ev = k"
    and "e \<in> set ((w(k := w k @ [ev])) t)"
  shows "Topic e = t"
proof (cases "t = k")
  case True
  with assms(3) have "e \<in> set (w k) \<or> e = ev" by auto
  with assms(1,2) True show ?thesis by auto
next
  case False
  with assms(3) have "e \<in> set (w t)" by simp
  from assms(1)[OF this] show ?thesis .
qed

lemma demux_step_Setup: "demux_step fname Setup s = Some s' \<Longrightarrow>
   \<exists>topic rest. todo s = topic # rest \<and> written s' = written s \<and> outs s' = (outs s)(topic \<mapsto> [])"
  by (cases "todo s") (auto split: if_splits)

lemma demux_step_Take:
  "demux_step fname (Take i) s = Some s' \<Longrightarrow> written s' = written s \<and> outs s' = outs s"
  by (clarsimp split: if_splits prod.splits option.splits list.splits)

lemma demux_step_Route: "demux_step fname (Route i) s = Some s' \<Longrightarrow>
   \<exists>ev. routers s ! i = Some ev \<and> written s' = written s \<and>
     (case outs s (Topic ev) of None \<Rightarrow> outs s' = outs s
      | Some old \<Rightarrow> outs s' = (outs s)(Topic ev \<mapsto> old @ [ev]))"
  by (cases "routers s ! i") (auto split: if_splits option.splits)

lemma demux_step_Drain: "demux_step fname (Drain topic) s = Some s' \<Longrightarrow>
   \<exists>ev rest. outs s topic = Some (ev # rest) \<and>
      written s' = (written s)(topic := written s topic @ [ev]) \<and>
      outs s' = (outs s)(topic \<mapsto> rest)"
  by (auto split: if_splits option.splits list.splits)

lemma demux_step_by_topic:
  assumes st: "demux_step fname a s = Some s'"
    and w: "\<And>t e. e \<in> set (written s t) \<Longrightarrow> Topic e = t"
    and b: "\<And>t buf e. outs s t = Some buf \<Longrightarrow> e \<in> set buf \<Longrightarrow> Topic e = t"
  shows "(\<forall>t e. e \<in> set (written s' t) \<longrightarrow> Topic e = t) \<and>
         (\<forall>t buf e. outs s' t = Some buf \<longrightarrow> e \<in> set buf \<longrightarrow> Topic e = t)"
proof (cases a)
  case Setup
  with demux_step_Setup[of fname s s'] st obtain topic where
    s': "written s' = written s" "outs s' = (outs s)(topic \<mapsto> [])"
    by blast
  have "Topic e = t" if h: "outs s' t = Some buf" "e \<in> set buf" for t buf e
  proof (rule upd_buf_by_topic[where m = "outs s" and new = "[]" and k = topic])
    show "\<And>t buf e. outs s t = Some buf \<Longrightarrow> e \<in> set buf \<Longrightarrow> Topic e = t" by (rule b)
    show "\<And>e. e \<in> set [] \<Longrightarrow> Topic e = topic" by simp
    show "((outs s)(topic \<mapsto> [])) t = Some buf" using h(1) unfolding s'(2) .
    show "e \<in> set buf" by (rule h(2))
  qed
  then show ?thesis unfolding s'(1) using w by blast
next
  case (Take i)
  with demux_step_Take[of fname i s s'] st have s': "written s' = written s" "outs s' = outs s"
    by blast+
  show ?thesis unfolding s' using w b by blast
next
  case (Route i)
  with demux_step_Route[of fname i s s'] st obtain ev where
    s': "written s' = written s"
      "case outs s (Topic ev) of None \<Rightarrow> outs s' = outs s
       | Some old \<Rightarrow> outs s' = (outs s)(Topic ev \<mapsto> old @ [ev])"
    by blast
  show ?thesis
  proof (cases "outs s (Topic ev)")
    case None
    with s'(2) have o: "outs s' = outs s" by simp
    show ?thesis unfolding s'(1) o using w b by blast
  next
    case (Some old)
    with s'(2) have o: "outs s' = (outs s)(Topic ev \<mapsto> old @ [ev])" by simp
    have new: "Topic e = Topic ev" if "e \<in> set (old @ [ev])" for e
    proof (cases "e = ev")
      case True
      then show ?thesis by simp
    next
      case False
      with that have "e \<in> set old" by simp
      from b[OF Some this] show ?thesis .
    qed
    have "Topic e = t" if h: "outs s' t = Some buf" "e \<in> set buf" for t buf e
    proof (rule upd_buf_by_topic[where m = "outs s" and new = "old @ [ev]" and k = "Topic ev"])
      show "\<And>t buf e. outs s t = Some buf \<Longrightarrow> e \<in> set buf \<Longrightarrow> Topic e = t" by (rule b)
      show "\<And>e. e \<in> set (old @ [ev]) \<Longrightarrow> Topic e = Topic ev" by (rule new)
      show "((outs s)(Topic ev \<mapsto> old @ [ev])) t = Some buf" using h(1) unfolding o .
      show "e \<in> set buf" by (rule h(2))
    qed
    then show ?thesis unfolding s'(1) using w by blast
  qed
next
  case (Drain topic)
  with demux_step_Drain[of fname topic s s'] st obtain ev rest where
    old: "outs s topic = Some (ev # rest)"
    and s': "written s' = (written s)(topic := written s topic @ [ev])"
      "outs s' = (outs s)(topic \<mapsto> rest)"
    by blast
  have tev: "Topic ev = topic" by (rule b[OF old]) simp
  have new: "Topic e = topic" if "e \<in> set rest" for e
    by (rule b[OF old]) (simp add: that)
  have "Topic e = t" if h: "outs s' t = Some buf" "e \<in> set buf" for t buf e
  proof (rule upd_buf_by_topic[where m = "outs s" and new = rest and k = topic])
    show "\<And>t buf e. outs s t = Some buf \<Longrightarrow> e \<in> set buf \<Longrightarrow> Topic e = t" by (rule b)
    show "\<And>e. e \<in> set rest \<Longrightarrow> Topic e = topic" by (rule new)
    show "((outs s)(topic \<mapsto> rest)) t = Some buf" using h(1) unfolding s'(2) .
    show "e \<in> set buf" by (rule h(2))
  qed
  moreover have "Topic e = t" if h: "e \<in> set (written s' t)" for t e
  proof (rule upd_written_by_topic[where w = "written s" and ev = ev and k = topic])
    show "\<And>t e. e \<in> set (written s t) \<Longrightarrow> Topic e = t" by (rule w)
    show "Topic ev = topic" by (rule tev)
    show "e \<in> set (((written s)(topic := written s topic @ [ev])) t)" using h unfolding s'(1) .
  qed
  ultimately show ?thesis by blast
qed

lemma demux_run_by_topic:
  "demux_run fname sched s = Some s' \<Longrightarrow>
     (\<forall>t e. e \<in> set (written s t) \<longrightarrow> Topic e = t) \<and>
     (\<forall>t buf e. outs s t = Some buf \<longrightarrow> e \<in> set buf \<longrightarrow> Topic e = t) \<Longrightarrow>
     (\<forall>t e. e \<in> set (written s' t) \<longrightarrow> Topic e = t) \<and>
     (\<forall>t buf e. outs s' t = Some buf \<longrightarrow> e \<in> set buf \<longrightarrow> Topic e = t)"
proof (induction sched arbitrary: s)
  case Nil
  then show ?case by simp
next
  case (Cons a sched)
  from Cons.prems(1) obtain s1 where a: "demux_step fname a s = Some s1"
    and r: "demux_run fname sched s1 = Some s'"
    by (cases "demux_step fname a s") simp_all
  have "(\<forall>t e. e \<in> set (written s1 t) \<longrightarrow> Topic e = t) \<and>
     (\<forall>t buf e. outs s1 t = Some buf \<longrightarrow> e \<in> set buf \<longrightarrow> Topic e = t)"
  proof (rule demux_step_by_topic[OF a])
    show "\<And>t e. e \<in> set (written s t) \<Longrightarrow> Topic e = t"
      using Cons.prems(2) by blast
    show "\<And>t buf e. outs s t = Some buf \<Longrightarrow> e \<in> set buf \<Longrightarrow> Topic e = t"
      using Cons.prems(2) by blast
  qed
  from Cons.IH[OF r this] show ?case .
qed

lemma demux_only_declared_topic:
  assumes "demux_run fname sched (startinst_demux fname encoded produced) = Some s"
    and "e \<in> set (sent_on s t)"
  shows "Topic e = t"
proof -
  from demux_run_by_topic[OF assms(1)]
  have "(\<forall>t e. e \<in> set (written s t) \<longrightarrow> Topic e = t) \<and>
     (\<forall>t buf e. outs s t = Some buf \<longrightarrow> e \<in> set buf \<longrightarrow> Topic e = t)"
    by (simp add: startinst_demux_def)
  with assms(2) show ?thesis
    by (cases "outs s t") (auto simp: sent_on_def)
qed

text \<open>
  C3. The claim asks that the events of one destination topic appear on its channel in
  the order the operator produced them. With two encoded topics \<open>startinst\<close> has
  started two goroutines that receive from \<open>out\<close>. The operator emits \<open>k1\<close> and then \<open>k2\<close>,
  both for \<open>topicB\<close>; the first goroutine receives \<open>k1\<close>, the second receives \<open>k2\<close> and
  sends it before the first one sends \<open>k1\<close>: the channel of \<open>topicB\<close> carries \<open>k2\<close> before
  \<open>k1\<close>.
\<close>

theorem demux_reorders:
  "demux_sent ''x'' [Setup, Setup, Take 0, Take 1, Route 1, Route 0]
      (startinst_demux ''x'' [''topicB'', ''topicC''] [mk_event ''topicB'' ''k1'', mk_event ''topicB'' ''k2''])
      ''topicB''
     = Some [mk_event ''topicB'' ''k2'', mk_event ''topicB'' ''k1'']"
  by (simp add: demux_sent_def startinst_demux_def sent_on_def mk_event_def)

section \<open>Starting an instance: the fatal checks\<close>

lemma startinst_readers_ok:
  "\<forall>t \<in> fst ` set slices. inputs oper t = Some True \<Longrightarrow>
     startinst_readers lg fname oper slices ins = Inr (ins @ map (\<lambda>(t, ps). Read lg t ps) slices)"
  by (induction slices arbitrary: ins) auto

lemma startinst_readers_fatal:
  "\<exists>t \<in> fst ` set slices. inputs oper t \<noteq> Some True \<Longrightarrow>
     \<exists>t \<in> fst ` set slices. inputs oper t \<noteq> Some True \<and>
        startinst_readers lg fname oper slices ins = Inl (NotReaderOf fname t)"
proof (induction slices arbitrary: ins)
  case Nil
  then show ?case by simp
next
  case (Cons slice slices)
  obtain topic ps where slice: "slice = (topic, ps)" by (cases slice)
  show ?case
  proof (cases "inputs oper topic = Some True")
    case True
    with Cons.prems slice have "\<exists>t \<in> fst ` set slices. inputs oper t \<noteq> Some True" by auto
    from Cons.IH[OF this, of "ins @ [Read lg topic ps]"] obtain t where
      "t \<in> fst ` set slices" "inputs oper t \<noteq> Some True"
      "startinst_readers lg fname oper slices (ins @ [Read lg topic ps]) = Inl (NotReaderOf fname t)"
      by blast
    with True slice show ?thesis by auto
  next
    case False
    with slice show ?thesis by auto
  qed
qed

text \<open>
  C4. When the operator named by the instance is registered and every assigned topic
  is one of its declared inputs, \<open>startinst\<close> passes both checks and opens one reader
  per assigned topic: neither \<open>log.Fatalf\<close> is reached. When the operator is not
  registered the process ends in the first \<open>log.Fatalf\<close>; when it is registered and
  some assigned topic is not a declared input the process ends in the second one, for
  such a topic. In no case is an error returned to the caller: the result is the
  end of the process or the opened readers.
\<close>

theorem startinst_fatal_branches:
  "(\<forall>oper. ops g (Fname inst) = Some oper \<and> (\<forall>t \<in> fst ` set (TopicSlices inst). inputs oper t = Some True) \<longrightarrow>
      startinst_ins g inst = Inr (map (\<lambda>(t, ps). Read (log g) t ps) (TopicSlices inst))) \<and>
   (ops g (Fname inst) = None \<longrightarrow> startinst_ins g inst = Inl (DoesNotExist (Fname inst))) \<and>
   (\<forall>oper. ops g (Fname inst) = Some oper \<and> (\<exists>t \<in> fst ` set (TopicSlices inst). inputs oper t \<noteq> Some True) \<longrightarrow>
      (\<exists>t \<in> fst ` set (TopicSlices inst). inputs oper t \<noteq> Some True \<and>
         startinst_ins g inst = Inl (NotReaderOf (Fname inst) t)))"
proof (intro conjI allI impI)
  fix oper
  assume "ops g (Fname inst) = Some oper \<and> (\<forall>t \<in> fst ` set (TopicSlices inst). inputs oper t = Some True)"
  then show "startinst_ins g inst = Inr (map (\<lambda>(t, ps). Read (log g) t ps) (TopicSlices inst))"
    using startinst_readers_ok[of "TopicSlices inst" oper "log g" "Fname inst" "[]"]
    by (simp add: startinst_ins_def)
next
  assume "ops g (Fname inst) = None"
  then show "startinst_ins g inst = Inl (DoesNotExist (Fname inst))"
    by (simp add: startinst_ins_def)
next
  fix oper
  assume a: "ops g (Fname inst) = Some oper \<and> (\<exists>t \<in> fst ` set (TopicSlices inst). inputs oper t \<noteq> Some True)"
  then have "\<exists>t \<in> fst ` set (TopicSlices inst). inputs oper t \<noteq> Some True" by simp
  from startinst_readers_fatal[OF this, of "log g" "Fname inst" "[]"] a
  show "\<exists>t \<in> fst ` set (TopicSlices inst). inputs oper t \<noteq> Some True \<and>
         startinst_ins g inst = Inl (NotReaderOf (Fname inst) t)"
    by (simp add: startinst_ins_def)
qed


text \<open>
  The theorem at work on the grid where \<open>x\<close> reads \<open>topicA\<close>: an assignment of \<open>topicA\<close> to
  \<open>x\<close> passes, an assignment to the unknown \<open>y\<close> and one that includes \<open>topicB\<close> are fatal.
\<close>

theorem startinst_fatal_branches_witness:
  "startinst_ins (snd (Add ''x'' 2 id [''topicA''] (topicA_grid [0, 1])))
      \<lparr>Fname = ''x'', InstanceId = 0, TopicSlices = [(''topicA'', [0, 1])]\<rparr> = Inr [[]] \<and>
   startinst_ins (snd (Add ''x'' 2 id [''topicA''] (topicA_grid [0, 1])))
      \<lparr>Fname = ''y'', InstanceId = 0, TopicSlices = [(''topicA'', [0, 1])]\<rparr> = Inl (DoesNotExist ''y'') \<and>
   startinst_ins (snd (Add ''x'' 2 id [''topicA''] (topicA_grid [0, 1])))
      \<lparr>Fname = ''x'', InstanceId = 0, TopicSlices = [(''topicA'', [0]), (''topicB'', [1])]\<rparr>
        = Inl (NotReaderOf ''x'' ''topicB'')"
  using
    startinst_fatal_branches[of "snd (Add ''x'' 2 id [''topicA''] (topicA_grid [0, 1]))"
      "\<lparr>Fname = ''x'', InstanceId = 0, TopicSlices = [(''topicA'', [0, 1])]\<rparr>"]
    startinst_fatal_branches[of "snd (Add ''x'' 2 id [''topicA''] (topicA_grid [0, 1]))"
      "\<lparr>Fname = ''y'', InstanceId = 0, TopicSlices = [(''topicA'', [0, 1])]\<rparr>"]
    startinst_fatal_branches[of "snd (Add ''x'' 2 id [''topicA''] (topicA_grid [0, 1]))"
      "\<lparr>Fname = ''x'', InstanceId = 0, TopicSlices = [(''topicA'', [0]), (''topicB'', [1])]\<rparr>"]
  unfolding Add_topicA_2 snd_conv
  by (simp add: topicA_grid_def topicA_log_def)

section \<open>Actor definitions: validation and identity\<close>

text \<open>
  C5. \<open>ValidateActorDef\<close> checks Type, then Name, then namespace: it returns
  \<open>ErrInvalidActorType\<close> exactly when Type is invalid, \<open>ErrInvalidActorName\<close> exactly when
  Type is valid and Name is not, \<open>ErrInvalidActorNamespace\<close> exactly when Type and Name
  are valid and namespace is not, and no error exactly when all three are valid; this
  holds for any name grammar. With the grammar of the spec, a def with Type \<open>""\<close> is
  refused with \<open>ErrInvalidActorType\<close> whatever the other fields are (so is the def
  \<open>{Type:"", Name:"n", namespace:"ns"}\<close>), and the def with \<open>t\<close>, \<open>n\<close>, \<open>ns\<close> passes.
\<close>

theorem ValidateActorDef_order:
  "(ValidateActorDef valid d = Some ErrInvalidActorType \<longleftrightarrow> \<not> valid (Type d)) \<and>
   (ValidateActorDef valid d = Some ErrInvalidActorName \<longleftrightarrow> valid (Type d) \<and> \<not> valid (Name d)) \<and>
   (ValidateActorDef valid d = Some ErrInvalidActorNamespace \<longleftrightarrow>
      valid (Type d) \<and> valid (Name d) \<and> \<not> valid (namespace d)) \<and>
   (ValidateActorDef valid d = None \<longleftrightarrow> valid (Type d) \<and> valid (Name d) \<and> valid (namespace d)) \<and>
   ValidateActorDef isNameValid (d\<lparr>Type := []\<rparr>) = Some ErrInvalidActorType \<and>
   ValidateActorDef isNameValid \<lparr>id_cache = [], Type = [], Name = ''n'', namespace = ''ns''\<rparr>
     = Some ErrInvalidActorType \<and>
   ValidateActorDef isNameValid \<lparr>id_cache = [], Type = ''t'', Name = ''n'', namespace = ''ns''\<rparr> = None"
  by (simp add: ValidateActorDef_def isNameValid_def whitespace_def)

text \<open>The theorem at work: a blank in Name, then an empty namespace, then a valid def.\<close>

theorem ValidateActorDef_order_witness:
  "ValidateActorDef isNameValid \<lparr>id_cache = [], Type = ''t'', Name = ''a b'', namespace = []\<rparr>
     = Some ErrInvalidActorName \<and>
   ValidateActorDef isNameValid \<lparr>id_cache = [], Type = ''t'', Name = ''ab'', namespace = []\<rparr>
     = Some ErrInvalidActorNamespace \<and>
   ValidateActorDef isNameValid \<lparr>id_cache = [], Type = ''t'', Name = ''ab'', namespace = ''ns''\<rparr> = None"
  using
    ValidateActorDef_order[of isNameValid "\<lparr>id_cache = [], Type = ''t'', Name = ''a b'', namespace = []\<rparr>"]
    ValidateActorDef_order[of isNameValid "\<lparr>id_cache = [], Type = ''t'', Name = ''ab'', namespace = []\<rparr>"]
    ValidateActorDef_order[of isNameValid "\<lparr>id_cache = [], Type = ''t'', Name = ''ab'', namespace = ''ns''\<rparr>"]
  by (simp add: isNameValid_def whitespace_def)

lemma ID_cached_value: "id_cache a \<noteq> [] \<Longrightarrow> ID a = (id_cache a, a)"
  by (simp add: ID_def)

lemma ID_after_writes_cached:
  "id_cache a \<noteq> [] \<Longrightarrow> ID_after_writes ws a = replicate (length ws) (id_cache a)"
proof (induction ws arbitrary: a)
  case Nil
  then show ?case by simp
next
  case (Cons w ws)
  obtain nm ns where w: "w = (nm, ns)" by (cases w)
  let ?b = "a\<lparr>Name := nm, namespace := ns\<rparr>"
  from Cons.prems have b: "id_cache ?b \<noteq> []" by simp
  from ID_cached_value[OF b] Cons.IH[OF b] w show ?case by simp
qed

text \<open>
  C6. On an \<open>ActorDef\<close> whose id has not been computed yet, the first call of \<open>ID()\<close>
  returns \<open>namespace + "-" + Name\<close> and stores it in the struct; the next call returns
  the same string and leaves the struct alone; and whatever is written to \<open>Name\<close> and
  \<open>namespace\<close> between later calls, each of them returns that same string.
\<close>

theorem ID_computed_once:
  assumes "id_cache a = []"
  shows "fst (ID a) = namespace a @ ''-'' @ Name a \<and>
         snd (ID a) = a\<lparr>id_cache := namespace a @ ''-'' @ Name a\<rparr> \<and>
         ID (snd (ID a)) = (namespace a @ ''-'' @ Name a, snd (ID a)) \<and>
         ID_after_writes ws (snd (ID a)) = replicate (length ws) (namespace a @ ''-'' @ Name a)"
proof -
  from assms have first: "ID a = (namespace a @ ''-'' @ Name a, a\<lparr>id_cache := namespace a @ ''-'' @ Name a\<rparr>)"
    by (simp add: ID_def)
  have ne: "id_cache (snd (ID a)) \<noteq> []" by (simp add: first)
  from ID_cached_value[OF ne] ID_after_writes_cached[OF ne, of ws] first show ?thesis
    by simp
qed

text \<open>
  The theorem at work: \<open>ns-n\<close> stays the id after \<open>Name\<close> and \<open>namespace\<close> are overwritten.
\<close>

theorem ID_computed_once_witness:
  "id_cache ((NewActorDef ''n'')\<lparr>namespace := ''ns''\<rparr>) = [] \<and>
   fst (ID ((NewActorDef ''n'')\<lparr>namespace := ''ns''\<rparr>)) = ''ns-n'' \<and>
   ID_after_writes [(''m'', ''ns''), (''m'', ''other'')] (snd (ID ((NewActorDef ''n'')\<lparr>namespace := ''ns''\<rparr>)))
     = [''ns-n'', ''ns-n'']"
proof -
  have h: "id_cache ((NewActorDef ''n'')\<lparr>namespace := ''ns''\<rparr>) = []"
    by (simp add: NewActorDef_def)
  from ID_computed_once[OF h, of "[(''m'', ''ns''), (''m'', ''other'')]"] h show ?thesis
    by (simp add: NewActorDef_def ID_def)
qed

section \<open>Process control: \<open>Start\<close>, \<open>Stop\<close>, \<open>Wait\<close>\<close>

lemma Start_eq:
  "Start g = (None,
     g\<lparr>registry := Some (case registry g of None \<Rightarrow> DefaultRegistry | Some r \<Rightarrow> r),
       log := (log g)\<lparr>loops := loops (log g) @
         [\<lparr>reads_from = cmdtopic g, read_parts = [0], runs = VoterMachine 0, writes_to = cmdtopic g\<rparr>,
          \<lparr>reads_from = cmdtopic g, read_parts = [0], runs = ManagerMachine 0, writes_to = cmdtopic g\<rparr>]\<rparr>\<rparr>)"
  by (cases "registry g") (simp_all add: Start_def wire_def Let_def)

lemma Start_times_nil: "fst (Start_times k g) = replicate k None"
  by (induction k arbitrary: g) (simp_all add: Start_eq case_prod_beta)

lemma Start_times_loops:
  "length (loops (log (snd (Start_times k g)))) = length (loops (log g)) + 2 * k"
  by (induction k arbitrary: g) (simp_all add: Start_eq case_prod_beta)

text \<open>
  C8. \<open>Start\<close> returns nil on every grid, on a second call after the first, and on each
  of any number of calls in a row. What a call changes is the metrics registry, set to
  the default registry when it was nil and kept otherwise, and the log, which gains
  the voter's and the manager's loop over partition 0 of the command topic.
\<close>

theorem Start_returns_nil:
  "fst (Start g) = None \<and>
   fst (Start (snd (Start g))) = None \<and>
   fst (Start_times k g) = replicate k None \<and>
   snd (Start g) =
     g\<lparr>registry := Some (case registry g of None \<Rightarrow> DefaultRegistry | Some r \<Rightarrow> r),
       log := (log g)\<lparr>loops := loops (log g) @
         [\<lparr>reads_from = cmdtopic g, read_parts = [0], runs = VoterMachine 0, writes_to = cmdtopic g\<rparr>,
          \<lparr>reads_from = cmdtopic g, read_parts = [0], runs = ManagerMachine 0, writes_to = cmdtopic g\<rparr>]\<rparr>\<rparr>"
  by (simp add: Start_eq Start_times_nil)

text \<open>
  C9, as amended. On a grid whose exit channel is open and whose wait group counts 1
  (a grid as constructed), the first \<open>Stop\<close> returns normally, closes the exit channel
  and takes the counter to 0, so that \<open>Wait\<close> returns where it blocked before. A
  second \<open>Stop\<close> panics on closing the closed channel and is no idempotent no-op; the
  panic comes before \<open>g.wg.Done()\<close>, so the counter stays at 0.
\<close>

theorem Stop_once:
  assumes "\<not> exit_closed g" and "wg g = 1"
  shows "Stop g = (None, g\<lparr>exit_closed := True, wg := 0\<rparr>) \<and>
         Wait_returns (snd (Stop g)) \<and> \<not> Wait_returns g \<and>
         Stop (snd (Stop g)) = (Some CloseOfClosedChannel, snd (Stop g)) \<and>
         wg (snd (Stop (snd (Stop g)))) = 0"
  using assms by (simp add: Stop_def Wait_returns_def Let_def)

text \<open>The theorem at work on the sample grid.\<close>

theorem Stop_once_witness:
  "\<not> exit_closed (topicA_grid [0, 1]) \<and> wg (topicA_grid [0, 1]) = 1 \<and>
   fst (Stop (topicA_grid [0, 1])) = None \<and>
   Wait_returns (snd (Stop (topicA_grid [0, 1]))) \<and>
   fst (Stop (snd (Stop (topicA_grid [0, 1])))) = Some CloseOfClosedChannel"
proof -
  have a: "\<not> exit_closed (topicA_grid [0, 1])" and b: "wg (topicA_grid [0, 1]) = 1"
    by (simp_all add: topicA_grid_def)
  from Stop_once[OF a b] a b show ?thesis by (auto simp: Stop_def Wait_returns_def)
qed

text \<open>
  C9 as stated has the second call drive the counter of the wait group negative: after
  the second \<open>Stop\<close> on the sample grid the counter is 0.
\<close>

theorem Stop_twice_counterexample:
  "fst (Stop (snd (Stop (topicA_grid [0, 1])))) = Some CloseOfClosedChannel \<and>
   wg (snd (Stop (snd (Stop (topicA_grid [0, 1]))))) = 0 \<and>
   \<not> wg (snd (Stop (snd (Stop (topicA_grid [0, 1]))))) < 0"
  by (simp add: Stop_def topicA_grid_def Let_def)


end
